theory Spec2Isabelle
  imports Complex_Main "HOL-Library.Word" "HOL-Library.While_Combinator"
begin

unbundle bit_operations_syntax

section \<open>Data model\<close>

text \<open>
  The program is \<^verbatim>\<open>invisibility_cloak.py\<close>. Images are NumPy arrays of \<^verbatim>\<open>uint8\<close>:
  a colour frame has shape (height, width, 3), a mask has shape (height, width).
  A frame is modelled as the list of its rows, a row as the list of its pixels,
  a pixel as the triple of its channels. An array is rectangular: all rows of
  an image have the same length (\<open>rectangular\<close> below); the definitions do not
  need it, the theorems name it where they do.
\<close>

type_synonym u8 = "8 word"
type_synonym pixel = "u8 \<times> u8 \<times> u8"
type_synonym frame = "pixel list list"
type_synonym mask = "u8 list list"

text \<open>
  A bound of a colour range is \<^verbatim>\<open>np.array([h, s, v])\<close>, an array of Python
  integers; a range is the pair (lower, upper).
\<close>

type_synonym bound = "int \<times> int \<times> int"
type_synonym color_range = "bound \<times> bound"

record preset =
  ranges :: "color_range list"
  description :: string

text \<open>The exceptions the modelled code can raise.\<close>

datatype error = IndexError | KeyError | cv2_error

definition rectangular :: "'a list list \<Rightarrow> bool" where
  "rectangular img = (\<forall>r \<in> set img. length r = length (hd img))"

text \<open>Two arrays have the same size: the same rows, of the same lengths.\<close>

definition same_size :: "'a list list \<Rightarrow> 'b list list \<Rightarrow> bool" where
  "same_size a b = (map length a = map length b)"

section \<open>The colour presets\<close>

text \<open>
  \<^verbatim>\<open>COLOR_PRESETS\<close>, a dict in insertion order, as an association list.
\<close>

definition COLOR_PRESETS :: "(string \<times> preset) list" where
  "COLOR_PRESETS =
    [(''red'', \<lparr>ranges = [((0, 120, 70), (10, 255, 255)), ((170, 120, 70), (180, 255, 255))],
               description = ''Bright red cloth/clothing''\<rparr>),
     (''blue'', \<lparr>ranges = [((100, 150, 50), (130, 255, 255))],
                description = ''Blue cloth/clothing''\<rparr>),
     (''green'', \<lparr>ranges = [((40, 40, 40), (80, 255, 255))],
                 description = ''Green cloth/clothing''\<rparr>),
     (''yellow'', \<lparr>ranges = [((20, 100, 100), (30, 255, 255))],
                  description = ''Yellow cloth/clothing''\<rparr>)]"

text \<open>\<^verbatim>\<open>self.color_names = list(COLOR_PRESETS.keys())\<close>\<close>

definition color_names :: "(string \<times> preset) list \<Rightarrow> string list" where
  "color_names P = map fst P"

section \<open>OpenCV array operations used by the segmentation\<close>

text \<open>
  \<^verbatim>\<open>cv2.inRange(src, lower, upper)\<close>: the cell of the result is 255 where every
  channel of the pixel lies between the bounds, both inclusive, and 0 elsewhere.
  On an array with no cell OpenCV raises an error, where \<open>inRange\<close> gives the
  empty mask; a frame read from the camera always has cells.
\<close>

definition in_range_px :: "pixel \<Rightarrow> bound \<Rightarrow> bound \<Rightarrow> bool" where
  "in_range_px p lower upper =
    (case p of (c1, c2, c3) \<Rightarrow>
     case lower of (l1, l2, l3) \<Rightarrow>
     case upper of (u1, u2, u3) \<Rightarrow>
       l1 \<le> uint c1 \<and> uint c1 \<le> u1 \<and>
       l2 \<le> uint c2 \<and> uint c2 \<le> u2 \<and>
       l3 \<le> uint c3 \<and> uint c3 \<le> u3)"

definition inRange :: "frame \<Rightarrow> bound \<Rightarrow> bound \<Rightarrow> mask" where
  "inRange src lower upper =
    map (map (\<lambda>p. if in_range_px p lower upper then 255 else 0)) src"

text \<open>\<^verbatim>\<open>cv2.bitwise_or(a, b)\<close> and \<^verbatim>\<open>cv2.bitwise_not(a)\<close> on masks, cell by cell.\<close>

definition bitwise_or :: "mask \<Rightarrow> mask \<Rightarrow> mask" where
  "bitwise_or a b = map2 (map2 (OR)) a b"

definition bitwise_not :: "mask \<Rightarrow> mask" where
  "bitwise_not a = map (map NOT) a"

section \<open>The HSV tuner\<close>

record tuner =
  is_active :: bool
  is_initialized :: bool

text \<open>\<^verbatim>\<open>HSVTuner.__init__\<close>\<close>

definition HSVTuner_init :: tuner where
  "HSVTuner_init = \<lparr>is_active = False, is_initialized = False\<rparr>"

text \<open>
  \<^verbatim>\<open>HSVTuner.toggle\<close>. Creating the window sets \<open>is_initialized\<close>; destroying it
  changes no field.
\<close>

definition toggle :: "tuner \<Rightarrow> tuner" where
  "toggle t =
    (let t1 = t\<lparr>is_active := \<not> is_active t\<rparr> in
     if is_active t1 \<and> \<not> is_initialized t1 then t1\<lparr>is_initialized := True\<rparr>
     else t1)"

text \<open>
  \<^verbatim>\<open>HSVTuner.get_hsv_range\<close>. What the six calls of \<^verbatim>\<open>cv2.getTrackbarPos\<close> give
  is the argument \<open>trackbars\<close>: the positions, as (lower, upper), or the
  \<^verbatim>\<open>cv2.error\<close> that some window back ends raise when the window is gone.
  The method returns a range, \<open>None\<close>, or raises.
\<close>

definition get_hsv_range :: "error + color_range \<Rightarrow> tuner \<Rightarrow> error + color_range option" where
  "get_hsv_range trackbars t =
    (if \<not> is_active t \<or> \<not> is_initialized t then Inr None
     else case trackbars of Inl e \<Rightarrow> Inl e | Inr r \<Rightarrow> Inr (Some r))"

section \<open>The state of the session\<close>

text \<open>
  What the program prints, shows and records is kept as a list of events, in
  the order of the calls. A message stands for the line printed.
\<close>

datatype message =
    Capturing_background
  | This_will_take_about_3_seconds
  | Background_captured
  | Failed_to_capture_background
  | Cannot_start_recording_no_frame
  | Recording_started string
  | Failed_to_initialize_video_writer
  | Recording_stopped

datatype event = Printed message | Shown frame | Written frame

text \<open>A \<^verbatim>\<open>cv2.VideoWriter\<close>: the file it writes and its frame size (width, height).\<close>

record writer =
  w_filename :: string
  w_size :: "nat \<times> nat"

text \<open>
  The fields of \<^verbatim>\<open>InvisibilityCloak\<close>. \<open>cap_pos\<close> counts the calls of
  \<^verbatim>\<open>self.cap.read()\<close> made so far: the camera is a function from the number of
  the call to the frame it returns, \<open>None\<close> when \<^verbatim>\<open>ret\<close> is false.
\<close>

record cloak =
  background :: "frame option"
  hsv_tuner :: tuner
  video_writer :: "writer option"
  is_recording :: bool
  current_color_index :: nat
  cap_pos :: nat
  events :: "event list"

type_synonym camera = "nat \<Rightarrow> frame option"

section \<open>Segmentation: \<^verbatim>\<open>create_color_mask\<close>\<close>

text \<open>
  Lines 234 to 245: one mask for each range of the preset, combined with
  \<^verbatim>\<open>bitwise_or\<close> starting from \<^verbatim>\<open>masks[0]\<close>, which raises IndexError on an
  empty list.
\<close>

definition preset_mask :: "frame \<Rightarrow> color_range list \<Rightarrow> error + mask" where
  "preset_mask hsv_frame rs =
    (let masks = map (\<lambda>(lower, upper). inRange hsv_frame lower upper) rs in
     case masks of
       [] \<Rightarrow> Inl IndexError
     | m0 # rest \<Rightarrow> Inr (foldl bitwise_or m0 rest))"

text \<open>
  \<^verbatim>\<open>create_color_mask\<close>. The program reads the global \<^verbatim>\<open>COLOR_PRESETS\<close>; the table
  is the argument \<open>P\<close> here, so that properties can be stated for any table.
\<close>

definition create_color_mask ::
  "(string \<times> preset) list \<Rightarrow> error + color_range \<Rightarrow> cloak \<Rightarrow> frame \<Rightarrow> error + mask" where
  "create_color_mask P trackbars s hsv_frame =
    (case (if is_active (hsv_tuner s) then get_hsv_range trackbars (hsv_tuner s) else Inr None) of
       Inl e \<Rightarrow> Inl e
     | Inr (Some (lower, upper)) \<Rightarrow> Inr (inRange hsv_frame lower upper)
     | Inr None \<Rightarrow>
        (if current_color_index s < length (color_names P) then
           (case map_of P (color_names P ! current_color_index s) of
              None \<Rightarrow> Inl KeyError
            | Some color_info \<Rightarrow> preset_mask hsv_frame (ranges color_info))
         else Inl IndexError))"

section \<open>OpenCV routines taken as given\<close>

text \<open>
  The routines of OpenCV and NumPy whose results are not computed here are the
  fields of a record, and every definition that calls one takes the record
  as its first argument: what is proved with a record \<open>L\<close> left open holds for any
  implementation of them. The three contour routines are given a model
  further below, for the property of the refinement that depends on them.
  \<^item> \<open>bgr2hsv\<close>: what \<^verbatim>\<open>cv2.cvtColor(frame, cv2.COLOR_BGR2HSV)\<close> does to one pixel.
  \<^item> \<open>findContours\<close>: \<^verbatim>\<open>cv2.findContours(mask, RETR_EXTERNAL, CHAIN_APPROX_SIMPLE)[0]\<close>,
    a list of contours, each a list of points (x, y). The program unpacks two
    results, as OpenCV 4 returns them; that version leaves the mask unchanged.
  \<^item> \<open>contourArea\<close>: \<^verbatim>\<open>cv2.contourArea(contour)\<close>.
  \<^item> \<open>covers c i j\<close>: \<^verbatim>\<open>cv2.fillPoly(mask, [c], 0)\<close> paints the cell in row \<open>i\<close>,
    column \<open>j\<close>.
  \<^item> \<open>mean_uint8\<close>: \<^verbatim>\<open>np.mean(frames, axis=0).astype(np.uint8)\<close>.
  \<^item> \<open>GaussianBlur\<close>: \<^verbatim>\<open>cv2.GaussianBlur(img, (5, 5), 0)\<close>.
  \<^item> \<open>getTextSize\<close>, \<open>putText\<close>: the size of a rendered text, and the frame with
    the text drawn at a point. The text is given by what it says (\<open>label\<close>);
    font, scale, colour and thickness are fixed for each label in the program.
\<close>

type_synonym contour = "(int \<times> int) list"

datatype label = Countdown int | Step_out_of_frame | Capturing_progress int int

record opencv =
  bgr2hsv :: "pixel \<Rightarrow> pixel"
  findContours :: "mask \<Rightarrow> contour list"
  contourArea :: "contour \<Rightarrow> rat"
  covers :: "contour \<Rightarrow> nat \<Rightarrow> nat \<Rightarrow> bool"
  mean_uint8 :: "frame list \<Rightarrow> frame"
  GaussianBlur :: "frame \<Rightarrow> frame"
  getTextSize :: "label \<Rightarrow> int \<times> int"
  putText :: "frame \<Rightarrow> label \<Rightarrow> int \<times> int \<Rightarrow> frame"

definition cvtColor :: "opencv \<Rightarrow> frame \<Rightarrow> frame" where
  "cvtColor L src = map (map (bgr2hsv L)) src"

section \<open>Mask refinement: \<^verbatim>\<open>refine_mask\<close>\<close>

text \<open>
  Erosion and dilation with \<^verbatim>\<open>self.morph_kernel\<close>, the 3 by 3 kernel of ones
  anchored at its centre, and OpenCV's default border: a cell outside the
  image does not take part in the minimum or the maximum. \<open>window m i j\<close> lists
  the cells of the image under the kernel placed at row \<open>i\<close>, column \<open>j\<close>.
\<close>

definition window :: "mask \<Rightarrow> nat \<Rightarrow> nat \<Rightarrow> u8 list" where
  "window m i j =
    concat (map (\<lambda>a. map (\<lambda>b. m ! a ! b) [j - 1 ..< min (length (m ! a)) (j + 2)])
                [i - 1 ..< min (length m) (i + 2)])"

definition erode1 :: "mask \<Rightarrow> mask" where
  "erode1 m =
    map (\<lambda>i. map (\<lambda>j. fold min (window m i j) 255) [0 ..< length (m ! i)]) [0 ..< length m]"

definition dilate1 :: "mask \<Rightarrow> mask" where
  "dilate1 m =
    map (\<lambda>i. map (\<lambda>j. fold max (window m i j) 0) [0 ..< length (m ! i)]) [0 ..< length m]"

text \<open>\<^verbatim>\<open>cv2.erode\<close> and \<^verbatim>\<open>cv2.dilate\<close> with \<^verbatim>\<open>iterations=n\<close>.\<close>

definition erode :: "mask \<Rightarrow> nat \<Rightarrow> mask" where
  "erode m n = (erode1 ^^ n) m"

definition dilate :: "mask \<Rightarrow> nat \<Rightarrow> mask" where
  "dilate m n = (dilate1 ^^ n) m"

text \<open>
  \<^verbatim>\<open>cv2.morphologyEx(mask, cv2.MORPH_OPEN, kernel, iterations=n)\<close>: OpenCV erodes
  \<open>n\<close> times, then dilates \<open>n\<close> times.
\<close>

definition morphologyEx_OPEN :: "mask \<Rightarrow> nat \<Rightarrow> mask" where
  "morphologyEx_OPEN m n = dilate (erode m n) n"

text \<open>\<^verbatim>\<open>cv2.fillPoly(mask, [contour], 0)\<close>: the cells the polygon covers become 0.\<close>

definition fillPoly :: "opencv \<Rightarrow> mask \<Rightarrow> contour \<Rightarrow> mask" where
  "fillPoly L m c =
    map (\<lambda>i. map (\<lambda>j. if covers L c i j then 0 else m ! i ! j) [0 ..< length (m ! i)])
        [0 ..< length m]"

text \<open>
  \<^verbatim>\<open>refine_mask\<close>: the contours are found once, in the dilated mask; the loop
  then erases those of area below 500, one after the other, in that mask.
\<close>

definition refine_mask :: "opencv \<Rightarrow> mask \<Rightarrow> mask" where
  "refine_mask L mask0 =
    (let mask1 = morphologyEx_OPEN mask0 2;
         mask2 = dilate mask1 1;
         contours = findContours L mask2
     in fold (\<lambda>contour m. if contourArea L contour < 500 then fillPoly L m contour else m)
             contours mask2)"

section \<open>Compositing: \<^verbatim>\<open>apply_invisibility_effect\<close>\<close>

text \<open>
  \<^verbatim>\<open>cv2.bitwise_and(src1, src2, mask=m)\<close> on colour frames: where the mask is not
  0 the pixel is the bitwise and of the two pixels, elsewhere it is 0. The
  three arrays must have the same size, or OpenCV raises \<^verbatim>\<open>cv2.error\<close>.
\<close>

definition and_px :: "pixel \<Rightarrow> pixel \<Rightarrow> pixel" where
  "and_px p q = (case p of (a1, a2, a3) \<Rightarrow> case q of (b1, b2, b3) \<Rightarrow>
     (a1 AND b1, a2 AND b2, a3 AND b3))"

definition bitwise_and :: "frame \<Rightarrow> frame \<Rightarrow> mask \<Rightarrow> error + frame" where
  "bitwise_and src1 src2 m =
    (if same_size src1 src2 \<and> same_size src1 m then
       Inr (map2 (map2 (\<lambda>p v. if v \<noteq> 0 then p else (0, 0, 0)))
                 (map2 (map2 and_px) src1 src2) m)
     else Inl cv2_error)"

text \<open>
  \<^verbatim>\<open>cv2.add(a, b)\<close> on \<^verbatim>\<open>uint8\<close> frames: each channel is the sum, saturated at 255.
  The two arrays must have the same size.
\<close>

definition add_sat :: "u8 \<Rightarrow> u8 \<Rightarrow> u8" where
  "add_sat a b = (if unat a + unat b > 255 then 255 else a + b)"

definition add_px :: "pixel \<Rightarrow> pixel \<Rightarrow> pixel" where
  "add_px p q = (case p of (a1, a2, a3) \<Rightarrow> case q of (b1, b2, b3) \<Rightarrow>
     (add_sat a1 b1, add_sat a2 b2, add_sat a3 b3))"

definition cv2_add :: "frame \<Rightarrow> frame \<Rightarrow> error + frame" where
  "cv2_add a b =
    (if same_size a b then Inr (map2 (map2 add_px) a b) else Inl cv2_error)"

text \<open>
  Lines 420 to 432 of \<^verbatim>\<open>apply_invisibility_effect\<close>: the plate under the mask,
  the frame under the inverse mask, and their sum.
\<close>

definition composite :: "frame \<Rightarrow> frame \<Rightarrow> mask \<Rightarrow> error + frame" where
  "composite bg frame m =
    (let inv_mask = bitwise_not m in
     case bitwise_and bg bg m of
       Inl e \<Rightarrow> Inl e
     | Inr background_part \<Rightarrow>
        (case bitwise_and frame frame inv_mask of
           Inl e \<Rightarrow> Inl e
         | Inr frame_part \<Rightarrow> cv2_add background_part frame_part))"

definition apply_invisibility_effect ::
  "opencv \<Rightarrow> (string \<times> preset) list \<Rightarrow> error + color_range \<Rightarrow> cloak \<Rightarrow> frame \<Rightarrow> error + frame" where
  "apply_invisibility_effect L P trackbars s frame =
    (case background s of
       None \<Rightarrow> Inr frame
     | Some bg \<Rightarrow>
        (let hsv = cvtColor L frame in
         case create_color_mask P trackbars s hsv of
           Inl e \<Rightarrow> Inl e
         | Inr mask0 \<Rightarrow> composite bg frame (refine_mask L mask0)))"

section \<open>Session operations\<close>

text \<open>\<^verbatim>\<open>print(...)\<close>, \<^verbatim>\<open>cv2.imshow("Invisibility Cloak", frame)\<close> and \<^verbatim>\<open>cv2.flip(frame, 1)\<close>.\<close>

definition console :: "message \<Rightarrow> cloak \<Rightarrow> cloak" where
  "console msg s = s\<lparr>events := events s @ [Printed msg]\<rparr>"

definition imshow :: "frame \<Rightarrow> cloak \<Rightarrow> cloak" where
  "imshow f s = s\<lparr>events := events s @ [Shown f]\<rparr>"

definition flip1 :: "frame \<Rightarrow> frame" where
  "flip1 f = map rev f"

text \<open>\<^verbatim>\<open>frame.shape[0]\<close> and \<^verbatim>\<open>frame.shape[1]\<close>.\<close>

definition frame_height :: "frame \<Rightarrow> nat" where
  "frame_height f = length f"

definition frame_width :: "frame \<Rightarrow> nat" where
  "frame_width f = (case f of [] \<Rightarrow> 0 | r # _ \<Rightarrow> length r)"

subsection \<open>\<^verbatim>\<open>capture_background\<close>\<close>

text \<open>
  One pass of the countdown loop (lines 272 to 295) for the loop index \<open>i\<close>: a
  frame that cannot be read is skipped; a frame read is mirrored, gets the
  countdown drawn and is shown. It is not kept.
\<close>

definition countdown_step :: "opencv \<Rightarrow> camera \<Rightarrow> nat \<Rightarrow> cloak \<Rightarrow> cloak" where
  "countdown_step L cam i s =
    (let s1 = s\<lparr>cap_pos := cap_pos s + 1\<rparr> in
     case cam (cap_pos s) of
       None \<Rightarrow> s1
     | Some f0 \<Rightarrow>
        (let frame = flip1 f0;
             countdown = 3 - (int i div 20);
             frame1 =
               (if countdown > 0 then
                  (let text_size = getTextSize L (Countdown countdown);
                       text_x = (int (frame_width frame) - fst text_size) div 2;
                       text_y = (int (frame_height frame) + snd text_size) div 2;
                       fr = putText L frame (Countdown countdown) (text_x, text_y)
                   in putText L fr Step_out_of_frame (50, 50))
                else frame)
         in imshow frame1 s1))"

text \<open>
  One pass of the capture loop (lines 298 to 311): the mirrored frame is
  appended to \<^verbatim>\<open>frames\<close> (a copy, made before the progress text is drawn).
\<close>

definition capture_step ::
  "opencv \<Rightarrow> camera \<Rightarrow> int \<Rightarrow> nat \<Rightarrow> frame list \<times> cloak \<Rightarrow> frame list \<times> cloak" where
  "capture_step L cam num_frames i st =
    (case st of (frames, s) \<Rightarrow>
     let s1 = s\<lparr>cap_pos := cap_pos s + 1\<rparr> in
     case cam (cap_pos s) of
       None \<Rightarrow> (frames, s1)
     | Some f0 \<Rightarrow>
        (let frame = flip1 f0;
             frames1 = frames @ [frame];
             frame1 = putText L frame (Capturing_progress (int i + 1) num_frames) (50, 50)
         in (frames1, imshow frame1 s1)))"

text \<open>
  \<^verbatim>\<open>capture_background(num_frames)\<close>: the value returned, and the state after
  the call.
\<close>

definition capture_background :: "opencv \<Rightarrow> camera \<Rightarrow> int \<Rightarrow> cloak \<Rightarrow> bool \<times> cloak" where
  "capture_background L cam num_frames s =
    (let s0 = console This_will_take_about_3_seconds (console Capturing_background s);
         countdown_frames = 60;
         s1 = fold (countdown_step L cam) [0 ..< countdown_frames] s0;
         (frames, s2) = fold (capture_step L cam num_frames) [0 ..< nat num_frames] ([], s1)
     in if frames \<noteq> [] then
          (let s3 = s2\<lparr>background := Some (mean_uint8 L frames)\<rparr>;
               s4 = s3\<lparr>background := Some (GaussianBlur L (the (background s3)))\<rparr>
           in (True, console Background_captured s4))
        else (False, console Failed_to_capture_background s2))"

subsection \<open>\<^verbatim>\<open>toggle_recording\<close>\<close>

text \<open>
  \<open>isOpened w\<close> says whether the \<^verbatim>\<open>cv2.VideoWriter\<close> constructed for the file
  and size \<open>w\<close> reports \<^verbatim>\<open>isOpened()\<close>; \<open>timestamp\<close> is the formatted
  \<^verbatim>\<open>datetime.now()\<close>.
\<close>

definition toggle_recording :: "camera \<Rightarrow> (writer \<Rightarrow> bool) \<Rightarrow> string \<Rightarrow> cloak \<Rightarrow> cloak" where
  "toggle_recording cam isOpened timestamp s =
    (if \<not> is_recording s then
       (let filename = ''invisibility_cloak_'' @ timestamp @ ''.mp4'';
            s1 = s\<lparr>cap_pos := cap_pos s + 1\<rparr>
        in case cam (cap_pos s) of
             None \<Rightarrow> console Cannot_start_recording_no_frame s1
           | Some frame \<Rightarrow>
              (let height = frame_height frame;
                   width = frame_width frame;
                   w = \<lparr>w_filename = filename, w_size = (width, height)\<rparr>;
                   s2 = s1\<lparr>video_writer := Some w\<rparr>
               in if isOpened w then
                    console (Recording_started filename) (s2\<lparr>is_recording := True\<rparr>)
                  else
                    (console Failed_to_initialize_video_writer s2)\<lparr>video_writer := None\<rparr>))
     else
       (let s1 = s\<lparr>is_recording := False\<rparr>;
            s2 = (if video_writer s1 \<noteq> None then s1\<lparr>video_writer := None\<rparr> else s1)
        in console Recording_stopped s2))"

text \<open>\<^verbatim>\<open>InvisibilityCloak.__init__\<close>, without the camera set-up.\<close>

definition cloak_init :: cloak where
  "cloak_init =
    \<lparr>background = None, hsv_tuner = HSVTuner_init, video_writer = None,
     is_recording = False, current_color_index = 0, cap_pos = 0, events = []\<rparr>"

section \<open>Notions used in the properties\<close>

text \<open>A cell of a mask is a member when it is in the mask and is not 0.\<close>

definition member :: "mask \<Rightarrow> nat \<Rightarrow> nat \<Rightarrow> bool" where
  "member m i j = (i < length m \<and> j < length (m ! i) \<and> m ! i ! j \<noteq> 0)"

definition two_valued :: "mask \<Rightarrow> bool" where
  "two_valued m = (\<forall>row \<in> set m. \<forall>v \<in> set row. v = 0 \<or> v = 255)"

text \<open>The values an array holds.\<close>

definition cells :: "'a list list \<Rightarrow> 'a set" where
  "cells m = (\<Union>row \<in> set m. set row)"

definition cell :: "bool \<Rightarrow> u8" where
  "cell b = (if b then 255 else 0)"

text \<open>A pixel lies in at least one range of a list.\<close>

definition in_any_range :: "pixel \<Rightarrow> color_range list \<Rightarrow> bool" where
  "in_any_range p rs = list_ex (\<lambda>(lower, upper). in_range_px p lower upper) rs"

text \<open>One bound is below another in every channel.\<close>

definition bound_le :: "bound \<Rightarrow> bound \<Rightarrow> bool" where
  "bound_le x y = (case x of (x1, x2, x3) \<Rightarrow> case y of (y1, y2, y3) \<Rightarrow>
     x1 \<le> y1 \<and> x2 \<le> y2 \<and> x3 \<le> y3)"

text \<open>
  An implementation of the routines taken as given, for the closed examples:
  no colour conversion, no contour found, no text drawn, the first frame as
  the mean.
\<close>

definition plain_cv :: opencv where
  "plain_cv =
    \<lparr>bgr2hsv = (\<lambda>p. p), findContours = (\<lambda>m. []), contourArea = (\<lambda>c. 0),
     covers = (\<lambda>c i j. False), mean_uint8 = hd, GaussianBlur = (\<lambda>f. f),
     getTextSize = (\<lambda>l. (0, 0)), putText = (\<lambda>f l org. f)\<rparr>"

text \<open>
  The selection the specification describes for compositing: the pixel of the
  plate where the mask is not 0, the pixel of the frame elsewhere.
\<close>

definition select :: "mask \<Rightarrow> frame \<Rightarrow> frame \<Rightarrow> frame" where
  "select m bg frame =
     map (\<lambda>i. map (\<lambda>j. if m ! i ! j \<noteq> 0 then bg ! i ! j else frame ! i ! j) [0 ..< length (frame ! i)])
         [0 ..< length frame]"

text \<open>
  Two cells are near when their rows and their columns differ by at most one,
  adjacent when they are near and distinct. A member is isolated when no cell
  adjacent to it is a member.
\<close>

definition near :: "nat \<Rightarrow> nat \<Rightarrow> nat \<Rightarrow> nat \<Rightarrow> bool" where
  "near i j a b = (a \<le> i + 1 \<and> i \<le> a + 1 \<and> b \<le> j + 1 \<and> j \<le> b + 1)"

definition adjacent :: "nat \<Rightarrow> nat \<Rightarrow> nat \<Rightarrow> nat \<Rightarrow> bool" where
  "adjacent i j a b = (near i j a b \<and> (a, b) \<noteq> (i, j))"

definition isolated :: "mask \<Rightarrow> nat \<Rightarrow> nat \<Rightarrow> bool" where
  "isolated m i j =
    (member m i j \<and>
     (\<forall>a \<in> set [i - 1 ..< i + 2]. \<forall>b \<in> set [j - 1 ..< j + 2].
        adjacent i j a b \<longrightarrow> \<not> member m a b))"

text \<open>
  What the specification says of the area filter, as a property of the
  contour routines on a mask: the polygon fill of a contour of area below 500
  erases whole regions. With a member it covers, it covers the members
  adjacent to it.
\<close>

definition fill_respects_regions :: "opencv \<Rightarrow> mask \<Rightarrow> bool" where
  "fill_respects_regions L m =
    (\<forall>c \<in> set (findContours L m). contourArea L c < 500 \<longrightarrow>
       (\<forall>i \<in> set [0 ..< length m]. \<forall>j \<in> set [0 ..< length (m ! i)].
        \<forall>a \<in> set [i - 1 ..< i + 2]. \<forall>b \<in> set [j - 1 ..< j + 2].
          member m i j \<and> member m a b \<and> adjacent i j a b \<and> covers L c i j
            \<longrightarrow> covers L c a b))"

text \<open>No two distinct cells of the mask are members.\<close>

definition at_most_one_member :: "mask \<Rightarrow> bool" where
  "at_most_one_member m =
    (\<forall>i \<in> set [0 ..< length m]. \<forall>j \<in> set [0 ..< length (m ! i)].
     \<forall>a \<in> set [0 ..< length m]. \<forall>b \<in> set [0 ..< length (m ! a)].
       member m i j \<and> member m a b \<longrightarrow> (a, b) = (i, j))"

section \<open>The contour routines on a mask\<close>

text \<open>
  Modelled from the spec: \<^verbatim>\<open>cv2.findContours\<close>, \<^verbatim>\<open>cv2.contourArea\<close> and
  \<^verbatim>\<open>cv2.fillPoly\<close> are routines of OpenCV and no code of the program. The
  specification says what \<^verbatim>\<open>refine_mask\<close> obtains from them: it is to "identify
  all external boundary contours", and "any connected mask region whose
  enclosed area is below a fixed threshold (500 pixel-units) is erased". The
  definitions below follow these words, with the conventions of OpenCV:
  \<^item> the members of a mask form regions connected through the eight cells
    around a member, while the cells outside a region are connected through
    the four cells above, below, left and right;
  \<^item> a region encloses its own cells and its holes: the cells of its bounding
    box that no path of such four-steps outside the region joins to the edge
    of the box. These are the cells inside or on the polygon that runs through
    the centres of the cells of the outer boundary of the region;
  \<^item> a region is external when no other region encloses it
    (\<^verbatim>\<open>cv2.RETR_EXTERNAL\<close>);
  \<^item> the enclosed area is the area of that polygon: a unit square between four
    neighbouring centres counts 1 when the four are enclosed and 1/2 when
    exactly three are.

  A contour is given here by the cells of its region, as points (x, y) =
  (column, row), and not by the vertices of the boundary alone: the area and
  the fill depend only on the cells enclosed. Every definition of this
  section belongs to the model.
\<close>

type_synonym pos = "nat \<times> nat"

text \<open>The cells around a cell, and those of them in its row or its column.\<close>

definition neighbours8 :: "pos \<Rightarrow> pos list" where
  "neighbours8 p =
     filter (\<lambda>q. q \<noteq> p) (List.product [fst p - 1 ..< fst p + 2] [snd p - 1 ..< snd p + 2])"

definition neighbours4 :: "pos \<Rightarrow> pos list" where
  "neighbours4 p = filter (\<lambda>q. fst q = fst p \<or> snd q = snd p) (neighbours8 p)"

text \<open>
  What can be reached from \<open>x\<close> along \<open>f\<close>, by a worklist search. The search ends
  when the set reached is finite, as it is for the two uses below.
\<close>

definition reach :: "('a \<Rightarrow> 'a list) \<Rightarrow> 'a \<Rightarrow> 'a set" where
  "reach f x = (case rtrancl_while (\<lambda>y. True) f x of Some (ws, Z) \<Rightarrow> Z | None \<Rightarrow> {})"

text \<open>The members of a mask, row by row, and the region of a member.\<close>

definition members :: "mask \<Rightarrow> pos list" where
  "members m =
     filter (\<lambda>p. m ! fst p ! snd p \<noteq> 0)
       (concat (map (\<lambda>i. map (Pair i) [0 ..< length (m ! i)]) [0 ..< length m]))"

definition member_neighbours :: "mask \<Rightarrow> pos \<Rightarrow> pos list" where
  "member_neighbours m p = filter (\<lambda>q. member m (fst q) (snd q)) (neighbours8 p)"

definition component :: "mask \<Rightarrow> pos \<Rightarrow> pos set" where
  "component m p = reach (member_neighbours m) p"

text \<open>The regions of the members listed: that of the first, then those of the rest.\<close>

fun regions_from :: "mask \<Rightarrow> pos list \<Rightarrow> pos list list" where
  "regions_from m [] = []"
| "regions_from m (p # ps) =
     (let C = component m p
      in filter (\<lambda>q. q \<in> C) (p # ps) # regions_from m (filter (\<lambda>q. q \<notin> C) ps))"

text \<open>The bounding box of a list of cells, its edge and its cells.\<close>

definition in_box :: "pos list \<Rightarrow> pos \<Rightarrow> bool" where
  "in_box B c =
     (B \<noteq> [] \<and> Min (set (map fst B)) \<le> fst c \<and> fst c \<le> Max (set (map fst B)) \<and>
      Min (set (map snd B)) \<le> snd c \<and> snd c \<le> Max (set (map snd B)))"

definition on_edge :: "pos list \<Rightarrow> pos \<Rightarrow> bool" where
  "on_edge B c =
     (fst c = Min (set (map fst B)) \<or> fst c = Max (set (map fst B)) \<or>
      snd c = Min (set (map snd B)) \<or> snd c = Max (set (map snd B)))"

definition box_cells :: "pos list \<Rightarrow> pos list" where
  "box_cells B =
     (if B = [] then []
      else List.product [Min (set (map fst B)) ..< Suc (Max (set (map fst B)))]
                        [Min (set (map snd B)) ..< Suc (Max (set (map snd B)))])"

text \<open>
  The cells of the box joined to its edge outside the region \<open>B\<close>: the search
  starts from \<open>None\<close>, which stands for the outside of the box and leads to
  the cells of the edge that are not in \<open>B\<close>.
\<close>

fun succ_open :: "pos list \<Rightarrow> pos option \<Rightarrow> pos option list" where
  "succ_open B None = map Some (filter (\<lambda>c. on_edge B c \<and> c \<notin> set B) (box_cells B))"
| "succ_open B (Some c) = map Some (filter (\<lambda>d. in_box B d \<and> d \<notin> set B) (neighbours4 c))"

definition open_cells :: "pos list \<Rightarrow> pos option set" where
  "open_cells B = reach (succ_open B) None"

definition enclosed :: "pos list \<Rightarrow> pos \<Rightarrow> bool" where
  "enclosed B c = (in_box B c \<and> Some c \<notin> open_cells B)"

definition enclosed_area :: "pos list \<Rightarrow> rat" where
  "enclosed_area B =
     (let outside = open_cells B;
          inside = filter (\<lambda>c. Some c \<notin> outside) (box_cells B);
          corners = (\<lambda>c. length (filter (\<lambda>d. d \<in> set inside)
                       [c, (fst c + 1, snd c), (fst c, snd c + 1), (fst c + 1, snd c + 1)]))
      in sum_list (map (\<lambda>c. if corners c = 4 then 1 else if corners c = 3 then 1 / 2 else 0)
                       (box_cells B)))"

text \<open>The regions that no other region encloses.\<close>

definition external_regions :: "mask \<Rightarrow> pos list list" where
  "external_regions m =
     (let rs = regions_from m (members m)
      in filter (\<lambda>A. \<not> list_ex (\<lambda>B. hd A \<notin> set B \<and> enclosed B (hd A)) rs) rs)"

definition points_of :: "pos list \<Rightarrow> contour" where
  "points_of A = map (\<lambda>p. (int (snd p), int (fst p))) A"

definition cells_of :: "contour \<Rightarrow> pos list" where
  "cells_of c = map (\<lambda>xy. (nat (snd xy), nat (fst xy))) c"

definition findContours_cv :: "mask \<Rightarrow> contour list" where
  "findContours_cv m = map points_of (external_regions m)"

definition contourArea_cv :: "contour \<Rightarrow> rat" where
  "contourArea_cv c = enclosed_area (cells_of c)"

definition covers_cv :: "contour \<Rightarrow> nat \<Rightarrow> nat \<Rightarrow> bool" where
  "covers_cv c i j = enclosed (cells_of c) (i, j)"

text \<open>The routines taken as given, with these three for the contours.\<close>

definition cv_contours :: "opencv \<Rightarrow> opencv" where
  "cv_contours L =
     L\<lparr>findContours := findContours_cv, contourArea := contourArea_cv, covers := covers_cv\<rparr>"

section \<open>Segmentation as a test on each pixel\<close>

lemma cell_or: "cell a OR cell b = cell (a \<or> b)"
  by (simp add: cell_def)

lemma map2_same: "map2 f (map g xs) (map h xs) = map (\<lambda>x. f (g x) (h x)) xs"
  by (induction xs) simp_all

lemma bitwise_or_cells:
  "bitwise_or (map (map (\<lambda>p. cell (A p))) fr) (map (map (\<lambda>p. cell (B p))) fr)
     = map (map (\<lambda>p. cell (A p \<or> B p))) fr"
  by (simp add: bitwise_or_def map2_same cell_or)

lemma inRange_cells: "inRange fr lo hi = map (map (\<lambda>p. cell (in_range_px p lo hi))) fr"
  by (simp add: inRange_def cell_def)

lemma foldl_or_cells:
  "foldl bitwise_or (map (map (\<lambda>p. cell (A p))) fr)
        (map (\<lambda>(lower, upper). inRange fr lower upper) rs)
     = map (map (\<lambda>p. cell (A p \<or> in_any_range p rs))) fr"
proof (induction rs arbitrary: A)
  case Nil
  then show ?case by (simp add: in_any_range_def)
next
  case (Cons r rs)
  obtain lo hi where r: "r = (lo, hi)" by (cases r)
  have step: "bitwise_or (map (map (\<lambda>p. cell (A p))) fr) (inRange fr lo hi)
      = map (map (\<lambda>p. cell (A p \<or> in_range_px p lo hi))) fr"
    unfolding inRange_cells by (rule bitwise_or_cells)
  have "foldl bitwise_or (map (map (\<lambda>p. cell (A p))) fr)
          (map (\<lambda>(lower, upper). inRange fr lower upper) (r # rs))
      = foldl bitwise_or (map (map (\<lambda>p. cell (A p \<or> in_range_px p lo hi))) fr)
          (map (\<lambda>(lower, upper). inRange fr lower upper) rs)"
    by (simp add: r step)
  also have "\<dots> = map (map (\<lambda>p. cell ((A p \<or> in_range_px p lo hi) \<or> in_any_range p rs))) fr"
    by (rule Cons.IH)
  also have "\<dots> = map (map (\<lambda>p. cell (A p \<or> in_any_range p (r # rs)))) fr"
    by (simp add: r in_any_range_def)
  finally show ?case .
qed

lemma preset_mask_cells:
  "rs \<noteq> [] \<Longrightarrow> preset_mask fr rs = Inr (map (map (\<lambda>p. cell (in_any_range p rs))) fr)"
proof (cases rs)
  case Nil
  then show "rs \<noteq> [] \<Longrightarrow> ?thesis" by simp
next
  case (Cons r rest)
  obtain lo hi where r: "r = (lo, hi)" by (cases r)
  have "foldl bitwise_or (inRange fr lo hi) (map (\<lambda>(lower, upper). inRange fr lower upper) rest)
        = map (map (\<lambda>p. cell (in_range_px p lo hi \<or> in_any_range p rest))) fr"
    unfolding inRange_cells[of fr lo hi] by (rule foldl_or_cells)
  then show ?thesis
    by (simp add: preset_mask_def Cons r in_any_range_def)
qed

lemma preset_mask_empty: "preset_mask fr [] = Inl IndexError"
  by (simp add: preset_mask_def)

lemma in_range_px_mono:
  "bound_le lo' lo \<Longrightarrow> bound_le hi hi' \<Longrightarrow> in_range_px p lo hi \<Longrightarrow> in_range_px p lo' hi'"
  by (auto simp: bound_le_def in_range_px_def split: prod.splits)

lemma member_cells:
  "member (map (map (\<lambda>p. cell (A p))) fr) i j \<longleftrightarrow> i < length fr \<and> j < length (fr ! i) \<and> A (fr ! i ! j)"
  by (auto simp: member_def cell_def split: if_splits)

lemma in_any_range_update_mono:
  assumes "k < length rs" "rs ! k = (lo, hi)" "bound_le lo' lo" "bound_le hi hi'"
    and "in_any_range p rs"
  shows "in_any_range p (rs[k := (lo', hi')])"
proof -
  from assms(5) obtain n where n: "n < length rs" "(case rs ! n of (l, u) \<Rightarrow> in_range_px p l u)"
    by (auto simp: in_any_range_def list_ex_iff in_set_conv_nth)
  show ?thesis
  proof (cases "n = k")
    case True
    with n assms have "in_range_px p lo' hi'"
      by (auto intro: in_range_px_mono)
    moreover have "(lo', hi') \<in> set (rs[k := (lo', hi')])"
      using assms(1) by (simp add: set_update_memI)
    ultimately show ?thesis
      by (auto simp: in_any_range_def list_ex_iff)
  next
    case False
    then have "rs[k := (lo', hi')] ! n = rs ! n" by simp
    with n have "rs ! n \<in> set (rs[k := (lo', hi')])"
      by (metis length_list_update nth_mem)
    with n(2) show ?thesis
      unfolding in_any_range_def list_ex_iff by (intro bexI[of _ "rs ! n"])
  qed
qed

section \<open>Monotonicity of the segmentation\<close>

text \<open>
  Claim C8. Widening a range never removes a member: when the range at place
  \<open>k\<close> of a range list is replaced by one whose lower bound is below or equal
  and whose upper bound is above or equal in every channel, both segmentations
  succeed and every member of the first mask is a member of the second. The
  same holds for the single range of the tuner path.
\<close>

theorem segment_monotone:
  assumes "k < length rs" and "rs ! k = (lo, hi)"
    and "bound_le lo' lo" and "bound_le hi hi'"
  shows "\<exists>m m'. preset_mask hsv rs = Inr m \<and>
                 preset_mask hsv (rs[k := (lo', hi')]) = Inr m' \<and>
                 (\<forall>i j. member m i j \<longrightarrow> member m' i j) \<and>
                 (\<forall>i j. member (inRange hsv lo hi) i j \<longrightarrow> member (inRange hsv lo' hi') i j)"
proof -
  have ne: "rs \<noteq> []" "rs[k := (lo', hi')] \<noteq> []"
    using assms(1) by auto
  have "member (map (map (\<lambda>p. cell (in_any_range p rs))) hsv) i j \<longrightarrow>
        member (map (map (\<lambda>p. cell (in_any_range p (rs[k := (lo', hi')])))) hsv) i j" for i j
    unfolding member_cells using in_any_range_update_mono[OF assms] by blast
  moreover have "member (inRange hsv lo hi) i j \<longrightarrow> member (inRange hsv lo' hi') i j" for i j
    unfolding inRange_cells member_cells using in_range_px_mono[OF assms(3,4)] by blast
  ultimately show ?thesis
    by (simp add: preset_mask_cells ne)
qed

theorem segment_monotone_witness:
  "preset_mask [[(5, 200, 100), (12, 200, 100)]] [((0, 120, 70), (10, 255, 255))] = Inr [[255, 0]] \<and>
   preset_mask [[(5, 200, 100), (12, 200, 100)]] [((0, 120, 70), (15, 255, 255))] = Inr [[255, 255]] \<and>
   member [[255, 0]] 0 0 \<and> member [[255, 255]] 0 0"
proof -
  have h: "(0::nat) < length [((0, 120, 70), (10, 255, 255)) :: color_range]"
    "[((0, 120, 70), (10, 255, 255)) :: color_range] ! 0 = ((0, 120, 70), (10, 255, 255))"
    "bound_le (0, 120, 70) (0, 120, 70)" "bound_le (10, 255, 255) (15, 255, 255)"
    by (simp_all add: bound_le_def)
  from segment_monotone[OF h, of "[[(5, 200, 100), (12, 200, 100)]]"]
  show ?thesis
    by (simp add: preset_mask_def inRange_def in_range_px_def member_def)
qed

section \<open>The tuner shadows the preset\<close>

lemma toggle_keeps_initialized:
  "is_active t \<longrightarrow> is_initialized t \<Longrightarrow> is_active (toggle t) \<longrightarrow> is_initialized (toggle t)"
  by (simp add: toggle_def Let_def)

lemma toggles_initialized:
  "is_active ((toggle ^^ n) HSVTuner_init) \<longrightarrow> is_initialized ((toggle ^^ n) HSVTuner_init)"
proof (induction n)
  case 0
  show ?case by (simp add: HSVTuner_init_def)
next
  case (Suc n)
  then show ?case using toggle_keeps_initialized by simp
qed

lemma map_of_nth_distinct:
  "distinct (map fst P) \<Longrightarrow> k < length P \<Longrightarrow> map_of P (fst (P ! k)) = Some (snd (P ! k))"
  by (metis map_of_eq_Some_iff nth_mem prod.collapse)

text \<open>
  Claim C6. In every state the tuner reaches by toggling, an active tuner
  alone determines the mask: the result is \<^verbatim>\<open>inRange\<close> of the live range (or the
  error of reading the trackbars), whatever the preset table and the preset
  selected. With the tuner inactive the mask is the one of the ranges of the
  selected preset.
\<close>

theorem tuner_override_alone:
  assumes "hsv_tuner s = (toggle ^^ n) HSVTuner_init"
  shows "(is_active (hsv_tuner s) \<longrightarrow>
            (\<forall>P k. create_color_mask P tb (s\<lparr>current_color_index := k\<rparr>) hsv
                     = (case tb of Inl e \<Rightarrow> Inl e
                        | Inr (lower, upper) \<Rightarrow> Inr (inRange hsv lower upper)))) \<and>
         (\<not> is_active (hsv_tuner s) \<longrightarrow> distinct (map fst P) \<longrightarrow> current_color_index s < length P \<longrightarrow>
            create_color_mask P tb s hsv
              = preset_mask hsv (ranges (snd (P ! current_color_index s))))"
proof -
  have init: "is_active (hsv_tuner s) \<longrightarrow> is_initialized (hsv_tuner s)"
    unfolding assms by (rule toggles_initialized)
  show ?thesis
  proof (intro conjI impI allI)
    fix P k
    assume "is_active (hsv_tuner s)"
    with init show "create_color_mask P tb (s\<lparr>current_color_index := k\<rparr>) hsv
                     = (case tb of Inl e \<Rightarrow> Inl e
                        | Inr (lower, upper) \<Rightarrow> Inr (inRange hsv lower upper))"
      by (simp add: create_color_mask_def get_hsv_range_def split: sum.splits)
  next
    assume a: "\<not> is_active (hsv_tuner s)" "distinct (map fst P)" "current_color_index s < length P"
    then show "create_color_mask P tb s hsv
              = preset_mask hsv (ranges (snd (P ! current_color_index s)))"
      by (simp add: create_color_mask_def color_names_def map_of_nth_distinct)
  qed
qed

theorem tuner_override_alone_witness:
  "create_color_mask COLOR_PRESETS (Inr ((20, 0, 0), (30, 255, 255)))
      (cloak_init\<lparr>hsv_tuner := toggle HSVTuner_init, current_color_index := 1\<rparr>)
      [[(25, 9, 9), (5, 200, 100)]] = Inr [[255, 0]] \<and>
   create_color_mask COLOR_PRESETS (Inr ((20, 0, 0), (30, 255, 255))) cloak_init
      [[(25, 9, 9), (5, 200, 100)]] = Inr [[0, 255]]"
proof -
  let ?s = "cloak_init\<lparr>hsv_tuner := toggle HSVTuner_init\<rparr>"
  have a: "hsv_tuner ?s = (toggle ^^ 1) HSVTuner_init" by simp
  have b: "hsv_tuner cloak_init = (toggle ^^ 0) HSVTuner_init" by (simp add: cloak_init_def)
  have d: "distinct (map fst COLOR_PRESETS)" by (simp add: COLOR_PRESETS_def)
  from tuner_override_alone[OF a, where tb = "Inr ((20, 0, 0), (30, 255, 255))"
         and hsv = "[[(25, 9, 9), (5, 200, 100)]]" and P = COLOR_PRESETS]
       tuner_override_alone[OF b, where tb = "Inr ((20, 0, 0), (30, 255, 255))"
         and hsv = "[[(25, 9, 9), (5, 200, 100)]]" and P = COLOR_PRESETS]
  show ?thesis
    using d
    by (simp add: toggle_def HSVTuner_init_def cloak_init_def COLOR_PRESETS_def
        preset_mask_def inRange_def in_range_px_def bitwise_or_def)
qed

section \<open>Masks are two-valued\<close>

lemma two_valued_cells: "two_valued m \<longleftrightarrow> cells m \<subseteq> {0, 255}"
  by (auto simp: two_valued_def cells_def)

lemma nth_in_cells: "i < length m \<Longrightarrow> j < length (m ! i) \<Longrightarrow> m ! i ! j \<in> cells m"
  unfolding cells_def by (intro UN_I[of "m ! i"]) simp_all

lemma window_cells: "set (window m i j) \<subseteq> cells m"
  by (auto simp: window_def intro: nth_in_cells)

lemma fold_min_closed:
  fixes v :: "'a::linorder"
  shows "v \<in> S \<Longrightarrow> set xs \<subseteq> S \<Longrightarrow> fold min xs v \<in> S"
  by (induction xs arbitrary: v) (auto simp: min_def)

lemma fold_max_closed:
  fixes v :: "'a::linorder"
  shows "v \<in> S \<Longrightarrow> set xs \<subseteq> S \<Longrightarrow> fold max xs v \<in> S"
  by (induction xs arbitrary: v) (auto simp: max_def)

lemma cells_erode1: "cells (erode1 m) \<subseteq> insert 255 (cells m)"
proof
  fix v assume "v \<in> cells (erode1 m)"
  then obtain i j where "v = fold min (window m i j) 255"
    by (auto simp: cells_def erode1_def)
  moreover have "fold min (window m i j) 255 \<in> insert 255 (cells m)"
    by (rule fold_min_closed) (use window_cells in auto)
  ultimately show "v \<in> insert 255 (cells m)" by simp
qed

lemma cells_dilate1: "cells (dilate1 m) \<subseteq> insert 0 (cells m)"
proof
  fix v assume "v \<in> cells (dilate1 m)"
  then obtain i j where "v = fold max (window m i j) 0"
    by (auto simp: cells_def dilate1_def)
  moreover have "fold max (window m i j) 0 \<in> insert 0 (cells m)"
    by (rule fold_max_closed) (use window_cells in auto)
  ultimately show "v \<in> insert 0 (cells m)" by simp
qed

lemma cells_fillPoly: "cells (fillPoly L m c) \<subseteq> insert 0 (cells m)"
proof
  fix v assume "v \<in> cells (fillPoly L m c)"
  then obtain i j where "i < length m" "j < length (m ! i)"
      "v = (if covers L c i j then 0 else m ! i ! j)"
    by (auto simp: cells_def fillPoly_def)
  then show "v \<in> insert 0 (cells m)"
    using nth_in_cells[of i m j] by auto
qed

lemma cells_contour_loop:
  "cells (fold (\<lambda>contour m. if contourArea L contour < 500 then fillPoly L m contour else m) cs m)
     \<subseteq> insert 0 (cells m)"
proof (induction cs arbitrary: m)
  case Nil
  show ?case by auto
next
  case (Cons c cs)
  show ?case
    using Cons.IH[of "fillPoly L m c"] Cons.IH[of m] cells_fillPoly[of L m c]
    by (auto split: if_splits)
qed

lemma cells_refine_mask: "cells (refine_mask L m) \<subseteq> {0, 255} \<union> cells m"
proof -
  have e: "cells (erode m 2) \<subseteq> {0, 255} \<union> cells m"
    using cells_erode1[of m] cells_erode1[of "erode1 m"]
    by (auto simp: erode_def numeral_2_eq_2)
  have d: "cells (dilate (erode m 2) 2) \<subseteq> {0, 255} \<union> cells m"
    using cells_dilate1[of "erode m 2"] cells_dilate1[of "dilate1 (erode m 2)"] e
    by (auto simp: dilate_def numeral_2_eq_2)
  have d2: "cells (dilate (morphologyEx_OPEN m 2) 1) \<subseteq> {0, 255} \<union> cells m"
    using cells_dilate1[of "dilate (erode m 2) 2"] d
    by (auto simp: dilate_def morphologyEx_OPEN_def)
  show ?thesis
    unfolding refine_mask_def Let_def
    using cells_contour_loop[of L "findContours L (dilate (morphologyEx_OPEN m 2) 1)" "dilate (morphologyEx_OPEN m 2) 1"] d2
    by blast
qed

lemma two_valued_cell_map: "two_valued (map (map (\<lambda>p. cell (A p))) fr)"
  by (auto simp: two_valued_def cell_def)

lemma create_color_mask_cases:
  "create_color_mask P tb s hsv = Inr m \<Longrightarrow>
     (\<exists>lo hi. m = inRange hsv lo hi) \<or> (\<exists>rs. rs \<noteq> [] \<and> preset_mask hsv rs = Inr m)"
proof -
  assume a: "create_color_mask P tb s hsv = Inr m"
  show ?thesis
  proof (cases "if is_active (hsv_tuner s) then get_hsv_range tb (hsv_tuner s) else Inr None")
    case (Inl e)
    with a show ?thesis by (simp add: create_color_mask_def)
  next
    case (Inr r)
    show ?thesis
    proof (cases r)
      case (Some lh)
      obtain lo hi where "lh = (lo, hi)" by (cases lh)
      with a Inr Some have "m = inRange hsv lo hi"
        by (simp add: create_color_mask_def)
      then show ?thesis by blast
    next
      case None
      with a Inr obtain info :: preset where "preset_mask hsv (ranges info) = Inr m"
        by (auto simp: create_color_mask_def split: if_splits option.splits)
      moreover from this have "ranges info \<noteq> []"
        by (auto simp: preset_mask_empty)
      ultimately show ?thesis by blast
    qed
  qed
qed

text \<open>
  Claim C9. Every mask the segmentation returns holds only the values 0 and
  255, and refinement of a mask that holds only 0 and 255 returns such a mask,
  for any implementation of the contour routines.
\<close>

theorem masks_two_valued:
  "(create_color_mask P tb s hsv = Inr m \<longrightarrow> two_valued m) \<and>
   (two_valued m0 \<longrightarrow> two_valued (refine_mask L m0))"
proof (intro conjI impI)
  assume "create_color_mask P tb s hsv = Inr m"
  from create_color_mask_cases[OF this] show "two_valued m"
    by (auto simp: inRange_cells preset_mask_cells two_valued_cell_map)
next
  assume "two_valued m0"
  then show "two_valued (refine_mask L m0)"
    using cells_refine_mask[of L m0] unfolding two_valued_cells by blast
qed

theorem masks_two_valued_witness:
  "create_color_mask COLOR_PRESETS (Inr ((0, 0, 0), (0, 0, 0))) cloak_init [[(5, 200, 100), (50, 200, 100)]]
      = Inr [[255, 0]] \<and> two_valued [[255, 0]] \<and>
   two_valued (refine_mask plain_cv [[255, 0]])"
proof -
  have a: "create_color_mask COLOR_PRESETS (Inr ((0, 0, 0), (0, 0, 0))) cloak_init
      [[(5, 200, 100), (50, 200, 100)]] = Inr [[255, 0]]"
    by (simp add: create_color_mask_def cloak_init_def HSVTuner_init_def color_names_def
        COLOR_PRESETS_def preset_mask_def inRange_def in_range_px_def bitwise_or_def)
  from masks_two_valued[of COLOR_PRESETS "Inr ((0, 0, 0), (0, 0, 0))" cloak_init
      "[[(5, 200, 100), (50, 200, 100)]]" "[[255, 0]]" "[[255, 0]]" plain_cv] a
  show ?thesis by simp
qed

section \<open>Compositing without a plate\<close>

text \<open>
  Claim C1. When no background plate is set, \<^verbatim>\<open>apply_invisibility_effect\<close>
  returns the frame it was given, unchanged, for every frame; no mask is
  computed.
\<close>

theorem no_plate_identity:
  "background s = None \<Longrightarrow> apply_invisibility_effect L P tb s frame = Inr frame"
  by (simp add: apply_invisibility_effect_def)

theorem no_plate_identity_witness:
  "background cloak_init = None \<and>
   apply_invisibility_effect plain_cv COLOR_PRESETS (Inr ((0, 0, 0), (0, 0, 0))) cloak_init
     [[(1, 2, 3), (4, 5, 6)]] = Inr [[(1, 2, 3), (4, 5, 6)]]"
proof -
  have a: "background cloak_init = None" by (simp add: cloak_init_def)
  from no_plate_identity[OF a] a show ?thesis by simp
qed

section \<open>Compositing with a plate\<close>

lemma same_size_iff:
  "same_size a b \<longleftrightarrow> length a = length b \<and> (\<forall>i < length a. length (a ! i) = length (b ! i))"
  unfolding same_size_def by (auto simp: list_eq_iff_nth_eq)

lemma and_px_same: "and_px p p = p"
  by (cases p) (simp add: and_px_def)

lemma add_sat_zero: "add_sat a 0 = a" "add_sat 0 a = a"
  using unsigned_less[of a, where 'a = nat] by (simp_all add: add_sat_def)

lemma add_px_zero: "add_px p (0, 0, 0) = p" "add_px (0, 0, 0) p = p"
  by (cases p; simp add: add_px_def add_sat_zero)+

lemma not_cell: "NOT (0::u8) \<noteq> 0" "NOT (255::u8) = 0"
  by simp_all

lemma two_valued_nth:
  "two_valued m \<Longrightarrow> i < length m \<Longrightarrow> j < length (m ! i) \<Longrightarrow> m ! i ! j = 0 \<or> m ! i ! j = 255"
  unfolding two_valued_def by (meson nth_mem)

lemma masks_two_valued_seg: "create_color_mask P tb s hsv = Inr m \<Longrightarrow> two_valued m"
  using create_color_mask_cases[of P tb s hsv m]
  by (auto simp: inRange_cells preset_mask_cells two_valued_cell_map)

lemma two_valued_refine_mask: "two_valued m0 \<Longrightarrow> two_valued (refine_mask L m0)"
  using cells_refine_mask[of L m0] unfolding two_valued_cells by blast

lemma bitwise_and_self:
  assumes "same_size src m"
  shows "bitwise_and src src m =
     Inr (map (\<lambda>i. map (\<lambda>j. if m ! i ! j \<noteq> 0 then src ! i ! j else (0, 0, 0)) [0 ..< length (src ! i)])
              [0 ..< length src])"
proof -
  have l: "length src = length m" "\<And>i. i < length src \<Longrightarrow> length (src ! i) = length (m ! i)"
    using assms by (auto simp: same_size_iff)
  have "map2 (map2 (\<lambda>p v. if v \<noteq> 0 then p else (0, 0, 0))) (map2 (map2 and_px) src src) m
      = map (\<lambda>i. map (\<lambda>j. if m ! i ! j \<noteq> 0 then src ! i ! j else (0, 0, 0)) [0 ..< length (src ! i)])
              [0 ..< length src]"
    by (rule nth_equalityI; simp add: l)
       (rule nth_equalityI; simp add: l and_px_same)
  then show ?thesis
    using assms by (simp add: bitwise_and_def same_size_def)
qed

lemma composite_eq_select:
  assumes tv: "two_valued m" and s1: "same_size bg frame" and s2: "same_size m frame"
  shows "composite bg frame m = Inr (select m bg frame)"
proof -
  have l: "length bg = length frame" "length m = length frame"
    "\<And>i. i < length frame \<Longrightarrow> length (bg ! i) = length (frame ! i)"
    "\<And>i. i < length frame \<Longrightarrow> length (m ! i) = length (frame ! i)"
    using s1 s2 by (auto simp: same_size_iff)
  have sbm: "same_size bg m"
    using s1 s2 by (simp add: same_size_def)
  have sfn: "same_size frame (bitwise_not m)"
    using s2 by (simp add: same_size_iff bitwise_not_def)
  let ?bp = "map (\<lambda>i. map (\<lambda>j. if m ! i ! j \<noteq> 0 then bg ! i ! j else (0, 0, 0)) [0 ..< length (bg ! i)])
              [0 ..< length bg]"
  let ?fp = "map (\<lambda>i. map (\<lambda>j. if bitwise_not m ! i ! j \<noteq> 0 then frame ! i ! j else (0, 0, 0))
              [0 ..< length (frame ! i)]) [0 ..< length frame]"
  have cellv: "m ! i ! j = 0 \<or> m ! i ! j = 255" if "i < length frame" "j < length (frame ! i)" for i j
    using two_valued_nth[OF tv, of i j] that l by simp
  have ss: "same_size ?bp ?fp"
    by (simp add: same_size_iff l)
  have "map2 (map2 add_px) ?bp ?fp = select m bg frame" (is "?lhs = ?rhs")
  proof (rule nth_equalityI)
    show "length ?lhs = length ?rhs"
      by (simp add: select_def l)
  next
    fix i assume "i < length ?lhs"
    then have i: "i < length frame" by (simp add: l)
    show "?lhs ! i = ?rhs ! i"
    proof (rule nth_equalityI)
      show "length (?lhs ! i) = length (?rhs ! i)"
        using i by (simp add: select_def l)
    next
      fix j assume "j < length (?lhs ! i)"
      then have j: "j < length (frame ! i)" using i by (simp add: l)
      have n: "bitwise_not m ! i ! j = NOT (m ! i ! j)"
        using i j l by (simp add: bitwise_not_def)
      show "?lhs ! i ! j = ?rhs ! i ! j"
        using i j cellv[OF i j] by (auto simp: select_def l n add_px_zero)
    qed
  qed
  then show ?thesis
    using ss by (simp add: composite_def bitwise_and_self[OF sbm] bitwise_and_self[OF sfn] cv2_add_def)
qed

lemma same_size_erode1: "same_size (erode1 m) m"
  by (simp add: same_size_iff erode1_def)

lemma same_size_dilate1: "same_size (dilate1 m) m"
  by (simp add: same_size_iff dilate1_def)

lemma same_size_fillPoly: "same_size (fillPoly L m c) m"
  by (simp add: same_size_iff fillPoly_def)

lemma same_size_contour_loop:
  "same_size (fold (\<lambda>contour m. if contourArea L contour < 500 then fillPoly L m contour else m) cs m) m"
proof (induction cs arbitrary: m)
  case Nil
  show ?case by (simp add: same_size_def)
next
  case (Cons c cs)
  show ?case
    using Cons.IH[of "fillPoly L m c"] Cons.IH[of m] same_size_fillPoly[of L m c]
    by (auto simp: same_size_def)
qed

lemma same_size_morph: "same_size (dilate (morphologyEx_OPEN m 2) 1) m"
  using same_size_erode1[of m] same_size_erode1[of "erode1 m"]
    same_size_dilate1[of "erode1 (erode1 m)"] same_size_dilate1[of "dilate1 (erode1 (erode1 m))"]
    same_size_dilate1[of "dilate1 (dilate1 (erode1 (erode1 m)))"]
  by (simp add: same_size_def morphologyEx_OPEN_def erode_def dilate_def numeral_2_eq_2)

lemma same_size_refine_mask: "same_size (refine_mask L m) m"
  using same_size_contour_loop[of L "findContours L (dilate (morphologyEx_OPEN m 2) 1)"
      "dilate (morphologyEx_OPEN m 2) 1"] same_size_morph[of m]
  by (simp add: refine_mask_def same_size_def Let_def)

lemma same_size_create_color_mask:
  assumes "create_color_mask P tb s hsv = Inr m"
  shows "same_size m hsv"
  using create_color_mask_cases[OF assms]
  by (auto simp: inRange_cells preset_mask_cells same_size_def)

text \<open>A plate whose size differs from that of the mask makes OpenCV raise.\<close>

lemma composite_size_mismatch:
  "\<not> same_size bg m \<Longrightarrow> composite bg frame m = Inl cv2_error"
  by (simp add: composite_def bitwise_and_def)

text \<open>
  Claim C2. For a plate and a frame of the same size and every two-valued
  mask of that size, compositing succeeds, its result has the size of the
  frame, and each pixel of the result is the pixel of the plate where the mask
  marks membership and the pixel of the frame where it does not. The mask the
  program composites with, the refined segmentation of the frame, is such a
  mask, so \<^verbatim>\<open>apply_invisibility_effect\<close> is this selection.
\<close>

theorem composite_is_select:
  assumes "same_size bg frame"
  shows "(two_valued m \<and> same_size m frame \<longrightarrow>
            (\<exists>out. composite bg frame m = Inr out \<and> same_size out frame \<and>
               (\<forall>i j. i < length frame \<and> j < length (frame ! i) \<longrightarrow>
                  out ! i ! j = (if member m i j then bg ! i ! j else frame ! i ! j)))) \<and>
         (background s = Some bg \<and> create_color_mask P tb s (cvtColor L frame) = Inr m0 \<longrightarrow>
            apply_invisibility_effect L P tb s frame
              = Inr (select (refine_mask L m0) bg frame))"
proof (intro conjI impI)
  assume a: "two_valued m \<and> same_size m frame"
  then have c: "composite bg frame m = Inr (select m bg frame)"
    using composite_eq_select assms by blast
  have l: "length m = length frame" "\<And>i. i < length frame \<Longrightarrow> length (m ! i) = length (frame ! i)"
    using a by (auto simp: same_size_iff)
  have "same_size (select m bg frame) frame"
    by (simp add: same_size_iff select_def)
  moreover have "select m bg frame ! i ! j = (if member m i j then bg ! i ! j else frame ! i ! j)"
    if "i < length frame \<and> j < length (frame ! i)" for i j
    using that l by (simp add: select_def member_def)
  ultimately show "\<exists>out. composite bg frame m = Inr out \<and> same_size out frame \<and>
               (\<forall>i j. i < length frame \<and> j < length (frame ! i) \<longrightarrow>
                  out ! i ! j = (if member m i j then bg ! i ! j else frame ! i ! j))"
    using c by blast
next
  assume a: "background s = Some bg \<and> create_color_mask P tb s (cvtColor L frame) = Inr m0"
  then have tv0: "two_valued m0" and ss0: "same_size m0 (cvtColor L frame)"
    using masks_two_valued_seg same_size_create_color_mask by blast+
  have "same_size (cvtColor L frame) frame"
    by (simp add: same_size_iff cvtColor_def)
  with ss0 same_size_refine_mask[of L m0] have ss: "same_size (refine_mask L m0) frame"
    by (simp add: same_size_def)
  have tv: "two_valued (refine_mask L m0)"
    using tv0 two_valued_refine_mask by blast
  show "apply_invisibility_effect L P tb s frame = Inr (select (refine_mask L m0) bg frame)"
    using a composite_eq_select[OF tv assms ss]
    by (simp add: apply_invisibility_effect_def)
qed


theorem composite_is_select_witness:
  "same_size [[(1, 2, 3), (4, 5, 6 :: u8)]] [[(5, 200, 100), (8, 200, 100 :: u8)]] \<and>
   two_valued [[255, 0]] \<and>
   same_size [[255, 0 :: u8]] [[(5, 200, 100), (8, 200, 100 :: u8)]] \<and>
   composite [[(1, 2, 3), (4, 5, 6)]] [[(5, 200, 100), (8, 200, 100)]] [[255, 0]]
     = Inr [[(1, 2, 3), (8, 200, 100)]] \<and>
   apply_invisibility_effect plain_cv COLOR_PRESETS (Inr ((0, 0, 0), (0, 0, 0)))
       (cloak_init\<lparr>background := Some [[(1, 2, 3), (4, 5, 6)]]\<rparr>) [[(5, 200, 100), (8, 200, 100)]]
     = Inr [[(1, 2, 3), (4, 5, 6)]]"
proof -
  let ?bg = "[[(1, 2, 3), (4, 5, 6 :: u8)]]"
  let ?fr = "[[(5, 200, 100), (8, 200, 100 :: u8)]]"
  let ?s = "cloak_init\<lparr>background := Some ?bg\<rparr>"
  have h: "same_size ?bg ?fr" by (simp add: same_size_def)
  have t: "two_valued [[255, 0]]" "same_size [[255, 0 :: u8]] ?fr"
    by (simp_all add: two_valued_def same_size_def)
  have c: "composite ?bg ?fr [[255, 0]] = Inr [[(1, 2, 3), (8, 200, 100)]]"
    by (simp add: composite_def bitwise_and_def bitwise_not_def same_size_def cv2_add_def
        and_px_def add_px_def add_sat_def)
  have m: "background ?s = Some ?bg \<and>
           create_color_mask COLOR_PRESETS (Inr ((0, 0, 0), (0, 0, 0))) ?s (cvtColor plain_cv ?fr)
             = Inr [[255, 255]]"
    by (simp add: create_color_mask_def cloak_init_def HSVTuner_init_def color_names_def
        COLOR_PRESETS_def preset_mask_def inRange_def in_range_px_def bitwise_or_def
        cvtColor_def plain_cv_def)
  have r: "select (refine_mask plain_cv [[255, 255]]) ?bg ?fr = ?bg"
    by code_simp
  from composite_is_select[OF h, where m = "[[255, 0]]" and s = ?s and P = COLOR_PRESETS
      and tb = "Inr ((0, 0, 0), (0, 0, 0))" and L = plain_cv and ?m0.0 = "[[255, 255]]"] m
  have "apply_invisibility_effect plain_cv COLOR_PRESETS (Inr ((0, 0, 0), (0, 0, 0))) ?s ?fr
     = Inr (select (refine_mask plain_cv [[255, 255]]) ?bg ?fr)"
    by blast
  with h t c r show ?thesis by simp
qed

section \<open>Refinement leaves no isolated member\<close>

lemma near_alt: "near i j a b \<longleftrightarrow> (i - 1 \<le> a \<and> a < i + 2) \<and> (j - 1 \<le> b \<and> b < j + 2)"
  unfolding near_def by arith

lemma near_range: "near i j a b \<longleftrightarrow> a \<in> set [i - 1 ..< i + 2] \<and> b \<in> set [j - 1 ..< j + 2]"
  unfolding near_alt by (simp only: set_upt atLeastLessThan_iff)

lemma in_window_iff1:
  "x \<in> set (window m i j) \<longleftrightarrow>
      (\<exists>a. (i - 1 \<le> a \<and> a < min (length m) (i + 2)) \<and>
        (\<exists>b. (j - 1 \<le> b \<and> b < min (length (m ! a)) (j + 2)) \<and> x = m ! a ! b))"
  apply (auto simp: window_def simp del: upt_Suc add_2_eq_Suc' add_2_eq_Suc atLeastLessThanSuc)
   apply blast
  subgoal for a b
    by (rule bexI[of _ a]) (auto simp del: upt_Suc add_2_eq_Suc' add_2_eq_Suc atLeastLessThanSuc)
  done

lemma in_window_iff:
  "x \<in> set (window m i j) \<longleftrightarrow>
     (\<exists>a b. near i j a b \<and> a < length m \<and> b < length (m ! a) \<and> x = m ! a ! b)"
  unfolding in_window_iff1 near_alt min_less_iff_conj by blast

lemma isolated_iff:
  "isolated m i j \<longleftrightarrow> member m i j \<and> (\<forall>a b. adjacent i j a b \<longrightarrow> \<not> member m a b)"
  unfolding isolated_def adjacent_def near_range by blast

lemma fold_max_nonzero:
  fixes v :: u8
  shows "fold max xs v \<noteq> 0 \<longleftrightarrow> v \<noteq> 0 \<or> (\<exists>x \<in> set xs. x \<noteq> 0)"
proof (induction xs arbitrary: v)
  case Nil
  show ?case by simp
next
  case (Cons x xs)
  have "max x v \<noteq> 0 \<longleftrightarrow> x \<noteq> 0 \<or> v \<noteq> 0"
    by (metis max_def word_le_0_iff word_coorder.extremum)
  then show ?case using Cons.IH[of "max x v"] by auto
qed

lemma fold_min_nonzero:
  fixes v :: u8
  shows "fold min xs v \<noteq> 0 \<longleftrightarrow> v \<noteq> 0 \<and> (\<forall>x \<in> set xs. x \<noteq> 0)"
proof (induction xs arbitrary: v)
  case Nil
  show ?case by simp
next
  case (Cons x xs)
  have "min x v \<noteq> 0 \<longleftrightarrow> x \<noteq> 0 \<and> v \<noteq> 0"
    by (metis min_def word_le_0_iff word_coorder.extremum)
  then show ?case using Cons.IH[of "min x v"] by auto
qed

lemma length_dilate1: "length (dilate1 m) = length m"
  by (simp add: dilate1_def)

lemma nth_dilate1:
  "i < length m \<Longrightarrow> dilate1 m ! i = map (\<lambda>j. fold max (window m i j) 0) [0 ..< length (m ! i)]"
  by (simp add: dilate1_def)

lemma length_erode1: "length (erode1 m) = length m"
  by (simp add: erode1_def)

lemma nth_erode1:
  "i < length m \<Longrightarrow> erode1 m ! i = map (\<lambda>j. fold min (window m i j) 255) [0 ..< length (m ! i)]"
  by (simp add: erode1_def)

lemma window_ex:
  "(\<exists>x \<in> set (window m i j). x \<noteq> 0) \<longleftrightarrow> (\<exists>a b. near i j a b \<and> member m a b)"
  unfolding Bex_def Ball_def in_window_iff member_def by blast

lemma window_all:
  "(\<forall>x \<in> set (window m i j). x \<noteq> 0) \<longleftrightarrow>
   (\<forall>a b. near i j a b \<and> a < length m \<and> b < length (m ! a) \<longrightarrow> member m a b)"
proof
  assume l: "\<forall>x \<in> set (window m i j). x \<noteq> 0"
  show "\<forall>a b. near i j a b \<and> a < length m \<and> b < length (m ! a) \<longrightarrow> member m a b"
  proof (intro allI impI)
    fix a b assume n: "near i j a b \<and> a < length m \<and> b < length (m ! a)"
    then have "m ! a ! b \<in> set (window m i j)"
      unfolding in_window_iff by blast
    with l n show "member m a b" by (simp add: member_def)
  qed
next
  assume r: "\<forall>a b. near i j a b \<and> a < length m \<and> b < length (m ! a) \<longrightarrow> member m a b"
  show "\<forall>x \<in> set (window m i j). x \<noteq> 0"
  proof
    fix x assume "x \<in> set (window m i j)"
    then obtain a b where "near i j a b \<and> a < length m \<and> b < length (m ! a)" "x = m ! a ! b"
      unfolding in_window_iff by blast
    with r show "x \<noteq> 0" by (simp add: member_def)
  qed
qed

lemma member_dilate1:
  "member (dilate1 m) i j \<longleftrightarrow>
     i < length m \<and> j < length (m ! i) \<and> (\<exists>a b. near i j a b \<and> member m a b)"
proof -
  have "member (dilate1 m) i j \<longleftrightarrow>
      i < length m \<and> j < length (m ! i) \<and> fold max (window m i j) 0 \<noteq> 0"
    by (auto simp: member_def length_dilate1 nth_dilate1)
  then show ?thesis
    by (simp add: fold_max_nonzero window_ex)
qed

lemma member_erode1:
  "member (erode1 m) i j \<longleftrightarrow>
     i < length m \<and> j < length (m ! i) \<and>
     (\<forall>a b. near i j a b \<and> a < length m \<and> b < length (m ! a) \<longrightarrow> member m a b)"
proof -
  have "member (erode1 m) i j \<longleftrightarrow>
      i < length m \<and> j < length (m ! i) \<and> fold min (window m i j) 255 \<noteq> 0"
    by (auto simp: member_def length_erode1 nth_erode1)
  then show ?thesis
    by (simp add: fold_min_nonzero window_all)
qed


lemma member_fillPoly:
  "member (fillPoly L m c) i j \<longleftrightarrow> member m i j \<and> \<not> covers L c i j"
  by (auto simp: member_def fillPoly_def split: if_splits)

lemma member_contour_loop:
  "member (fold (\<lambda>contour m. if contourArea L contour < 500 then fillPoly L m contour else m) cs m) i j
     \<longleftrightarrow> member m i j \<and> \<not> (\<exists>c \<in> set cs. contourArea L c < 500 \<and> covers L c i j)"
proof (induction cs arbitrary: m)
  case Nil
  show ?case by simp
next
  case (Cons c cs)
  show ?case
    using Cons.IH[of "fillPoly L m c"] Cons.IH[of m]
    by (auto simp: member_fillPoly)
qed

lemma rectangular_nth:
  "rectangular m \<Longrightarrow> i < length m \<Longrightarrow> k < length m \<Longrightarrow> length (m ! i) = length (m ! k)"
  unfolding rectangular_def by (metis nth_mem)

lemma rectangular_same_size:
  assumes "same_size a b" and "rectangular b"
  shows "rectangular a"
proof -
  have "length r = length (hd a)" if "r \<in> set a" for r
  proof -
    from that obtain i where i: "i < length a" "r = a ! i"
      by (auto simp: in_set_conv_nth)
    then have "0 < length a" by auto
    then have h: "hd a = a ! 0" by (simp add: hd_conv_nth)
    from assms(1) i \<open>0 < length a\<close> have "length (a ! i) = length (b ! i)" "length (a ! 0) = length (b ! 0)"
      "i < length b" "0 < length b"
      by (auto simp: same_size_iff)
    with rectangular_nth[OF assms(2), of i 0] show ?thesis
      by (simp add: i h)
  qed
  then show ?thesis by (simp add: rectangular_def)
qed

lemma concat_same_size: "same_size a b \<Longrightarrow> length (concat a) = length (concat b)"
  unfolding same_size_def length_concat by (rule arg_cong[of _ _ sum_list])

lemma rows_of_length_one:
  assumes "rectangular m" and "i < length m" and "length (m ! i) = 1"
  shows "length (concat m) = length m"
proof -
  have "map length m ! k = replicate (length m) 1 ! k" if "k < length m" for k
    using rectangular_nth[OF assms(1) that assms(2)] assms(3) that by simp
  then have "map length m = replicate (length m) 1"
    by (intro nth_equalityI) simp_all
  then show ?thesis
    by (simp add: length_concat sum_list_replicate)
qed

lemma neighbour_exists:
  assumes rect: "rectangular m" and big: "1 < length (concat m)"
    and i: "i < length m" and j: "j < length (m ! i)"
  shows "\<exists>a b. adjacent i j a b \<and> a < length m \<and> b < length (m ! a)"
proof (cases "2 \<le> length (m ! i)")
  case True
  define b where "b = (if j = 0 then 1 else j - 1)"
  have "adjacent i j i b \<and> i < length m \<and> b < length (m ! i)"
    using True i j by (auto simp: adjacent_def near_def b_def)
  then show ?thesis by blast
next
  case False
  with j have one: "length (m ! i) = 1" by simp
  with rows_of_length_one[OF rect i] big have h: "2 \<le> length m" by simp
  define a where "a = (if i = 0 then 1 else i - 1)"
  have a: "a < length m" using h i unfolding a_def by (cases i) auto
  have "length (m ! a) = 1"
    using rectangular_nth[OF rect a i] one by simp
  then have "adjacent i j a j \<and> a < length m \<and> j < length (m ! a)"
    using a j one by (auto simp: adjacent_def near_def a_def)
  then show ?thesis by blast
qed

lemma near_refl: "near i j i j"
  by (simp add: near_def)

lemma near_sym: "near i j a b \<Longrightarrow> near a b i j"
  by (simp add: near_def)

lemma no_isolated_dilate1:
  assumes rect: "rectangular X" and big: "1 < length (concat X)"
  shows "\<not> isolated (dilate1 X) i j"
proof
  assume iso: "isolated (dilate1 X) i j"
  then have mem: "member (dilate1 X) i j"
    and alone: "\<And>a b. adjacent i j a b \<Longrightarrow> \<not> member (dilate1 X) a b"
    by (auto simp: isolated_iff)
  from mem obtain a b where i: "i < length X" and j: "j < length (X ! i)"
    and ab: "near i j a b" "member X a b"
    unfolding member_dilate1 by blast
  show False
  proof (cases "(a, b) = (i, j)")
    case False
    have "member (dilate1 X) a b"
      unfolding member_dilate1 using ab(2) near_refl[of a b] by (auto simp: member_def)
    moreover have "adjacent i j a b"
      using ab(1) False by (simp add: adjacent_def)
    ultimately show False using alone by blast
  next
    case True
    from neighbour_exists[OF rect big i j] obtain a' b'
      where n: "adjacent i j a' b'" "a' < length X" "b' < length (X ! a')" by blast
    have "near a' b' i j" using n(1) by (simp add: adjacent_def near_sym)
    with ab(2) True n have "member (dilate1 X) a' b'"
      unfolding member_dilate1 by blast
    with alone[OF n(1)] show False by blast
  qed
qed


lemma morph_unfold:
  "dilate (morphologyEx_OPEN m 2) 1 = dilate1 (dilate1 (dilate1 (erode1 (erode1 m))))"
  by (simp add: dilate_def erode_def morphologyEx_OPEN_def numeral_2_eq_2)

lemma adjacent_sym: "adjacent i j a b \<Longrightarrow> adjacent a b i j"
  by (auto simp: adjacent_def near_def)

lemma fill_respects_regionsD:
  assumes "fill_respects_regions L m" and "c \<in> set (findContours L m)"
    and "contourArea L c < 500" and "member m i j" and "member m a b"
    and "adjacent i j a b" and "covers L c i j"
  shows "covers L c a b"
proof -
  have "i \<in> set [0 ..< length m]" "j \<in> set [0 ..< length (m ! i)]"
    using assms(4) by (simp_all add: member_def)
  moreover have "a \<in> set [i - 1 ..< i + 2]" "b \<in> set [j - 1 ..< j + 2]"
    using assms(6) unfolding adjacent_def near_range by blast+
  ultimately show ?thesis
    using assms unfolding fill_respects_regions_def by blast
qed

lemma at_most_one_memberD:
  assumes "at_most_one_member m" and "member m i j" and "member m a b"
  shows "(a, b) = (i, j)"
proof -
  have "i \<in> set [0 ..< length m]" "j \<in> set [0 ..< length (m ! i)]"
      "a \<in> set [0 ..< length m]" "b \<in> set [0 ..< length (m ! a)]"
    using assms(2,3) by (simp_all add: member_def)
  then show ?thesis
    using assms unfolding at_most_one_member_def by blast
qed

lemma member_refine_mask:
  "member (refine_mask L m) i j \<longleftrightarrow>
     member (dilate (morphologyEx_OPEN m 2) 1) i j \<and>
     \<not> (\<exists>c \<in> set (findContours L (dilate (morphologyEx_OPEN m 2) 1)).
          contourArea L c < 500 \<and> covers L c i j)"
  unfolding refine_mask_def Let_def by (rule member_contour_loop)

lemma morph_no_isolated:
  assumes rect: "rectangular m" and big: "1 < length (concat m)"
  shows "\<not> isolated (dilate (morphologyEx_OPEN m 2) 1) i j"
proof -
  let ?X = "dilate1 (dilate1 (erode1 (erode1 m)))"
  have ss: "same_size ?X m"
    using same_size_erode1[of m] same_size_erode1[of "erode1 m"]
      same_size_dilate1[of "erode1 (erode1 m)"] same_size_dilate1[of "dilate1 (erode1 (erode1 m))"]
    by (simp add: same_size_def)
  have rX: "rectangular ?X" using rectangular_same_size[OF ss rect] .
  have bX: "1 < length (concat ?X)" using concat_same_size[OF ss] big by simp
  show ?thesis
    unfolding morph_unfold by (rule no_isolated_dilate1[OF rX bX])
qed

lemma refine_mask_no_isolated:
  assumes rect: "rectangular m" and big: "1 < length (concat m)"
    and fill: "fill_respects_regions L (dilate (morphologyEx_OPEN m 2) 1)"
  shows "\<not> isolated (refine_mask L m) i j"
proof
  let ?D = "dilate (morphologyEx_OPEN m 2) 1"
  assume iso: "isolated (refine_mask L m) i j"
  have niD: "\<not> isolated ?D i j"
    by (rule morph_no_isolated[OF rect big])
  from iso have mR: "member (refine_mask L m) i j"
    and alone: "\<And>a b. adjacent i j a b \<Longrightarrow> \<not> member (refine_mask L m) a b"
    by (auto simp: isolated_iff)
  from mR have mD: "member ?D i j"
    and keep: "\<And>c. c \<in> set (findContours L ?D) \<Longrightarrow> contourArea L c < 500 \<Longrightarrow> \<not> covers L c i j"
    unfolding member_refine_mask by blast+
  from niD mD obtain a b where ab: "adjacent i j a b" "member ?D a b"
    unfolding isolated_iff by blast
  from alone[OF ab(1)] ab(2) obtain c where c: "c \<in> set (findContours L ?D)"
      "contourArea L c < 500" "covers L c a b"
    unfolding member_refine_mask by blast
  have "covers L c i j"
    by (rule fill_respects_regionsD[OF fill c(1,2) ab(2) mD adjacent_sym[OF ab(1)] c(3)])
  with keep[OF c(1,2)] show False by blast
qed

lemma erode1_single:
  assumes rect: "rectangular m" and big: "1 < length (concat m)"
    and one: "at_most_one_member m"
  shows "\<not> member (erode1 m) i j"
proof
  assume "member (erode1 m) i j"
  then have i: "i < length m" and j: "j < length (m ! i)"
    and all: "\<And>a b. near i j a b \<Longrightarrow> a < length m \<Longrightarrow> b < length (m ! a) \<Longrightarrow> member m a b"
    unfolding member_erode1 by blast+
  from neighbour_exists[OF rect big i j] obtain a b
    where n: "adjacent i j a b" "a < length m" "b < length (m ! a)" by blast
  have "member m a b" using all n by (simp add: adjacent_def)
  moreover have "member m i j" using all[OF near_refl i j] .
  ultimately have "(a, b) = (i, j)" using at_most_one_memberD[OF one] by blast
  with n(1) show False by (simp add: adjacent_def)
qed

lemma erode1_empty: "(\<And>a b. \<not> member m a b) \<Longrightarrow> \<not> member (erode1 m) i j"
  unfolding member_erode1 using near_refl[of i j] by blast

lemma dilate1_empty: "(\<And>a b. \<not> member m a b) \<Longrightarrow> \<not> member (dilate1 m) i j"
  unfolding member_dilate1 by blast

lemma zero_mask:
  assumes "same_size r m" and "\<And>i j. \<not> member r i j"
  shows "r = map (map (\<lambda>v. 0)) m"
proof (rule nth_equalityI)
  show "length r = length (map (map (\<lambda>v. 0)) m)"
    using assms(1) by (simp add: same_size_iff)
next
  fix i assume i: "i < length r"
  then have im: "i < length m" using assms(1) by (simp add: same_size_iff)
  show "r ! i = map (map (\<lambda>v. 0)) m ! i"
  proof (rule nth_equalityI)
    show "length (r ! i) = length (map (map (\<lambda>v. 0)) m ! i)"
      using assms(1) i im by (simp add: same_size_iff)
  next
    fix j assume j: "j < length (r ! i)"
    then have "j < length (m ! i)" using assms(1) i by (simp add: same_size_iff)
    with assms(2)[of i j] i j im show "r ! i ! j = map (map (\<lambda>v. 0)) m ! i ! j"
      by (simp add: member_def)
  qed
qed

lemma refine_mask_single:
  assumes rect: "rectangular m" and big: "1 < length (concat m)"
    and one: "at_most_one_member m"
  shows "refine_mask L m = map (map (\<lambda>v. 0)) m"
proof (rule zero_mask[OF same_size_refine_mask])
  fix i j
  have "\<not> member (erode1 m) a b" for a b
    by (rule erode1_single[OF rect big one])
  then have "\<not> member (erode1 (erode1 m)) a b" for a b
    by (rule erode1_empty)
  then have "\<not> member (dilate1 (erode1 (erode1 m))) a b" for a b
    by (rule dilate1_empty)
  then have "\<not> member (dilate1 (dilate1 (erode1 (erode1 m)))) a b" for a b
    by (rule dilate1_empty)
  then have "\<not> member (dilate1 (dilate1 (dilate1 (erode1 (erode1 m))))) a b" for a b
    by (rule dilate1_empty)
  then show "\<not> member (refine_mask L m) i j"
    unfolding member_refine_mask morph_unfold by blast
qed

text \<open>
  The contour routines of the model: the fill of a contour erases whole regions.
\<close>

lemma closure_within:
  assumes "\<And>a. set (f a) \<subseteq> U"
  shows "{(a, b). b \<in> set (f a)}\<^sup>* `` {x} \<subseteq> insert x U"
proof
  fix y assume "y \<in> {(a, b). b \<in> set (f a)}\<^sup>* `` {x}"
  then have "(x, y) \<in> {(a, b). b \<in> set (f a)}\<^sup>*" by simp
  then show "y \<in> insert x U"
  proof (cases rule: rtranclE)
    case base
    then show ?thesis by simp
  next
    case (step z)
    then have "y \<in> set (f z)" by simp
    with assms show ?thesis by blast
  qed
qed

lemma reach_closure:
  assumes "finite ({(a, b). b \<in> set (f a)}\<^sup>* `` {x})"
  shows "reach f x = {(a, b). b \<in> set (f a)}\<^sup>* `` {x}"
proof -
  from rtrancl_while_finite_Some[OF assms, of "\<lambda>y. True"]
  obtain ws Z where s: "rtrancl_while (\<lambda>y. True) f x = Some (ws, Z)"
    by (cases "rtrancl_while (\<lambda>y. True) f x") auto
  from rtrancl_while_Some[OF s] have "Z = {(a, b). b \<in> set (f a)}\<^sup>* `` {x}"
    by (simp split: if_splits)
  with s show ?thesis by (simp add: reach_def)
qed

lemma reach_finite_range:
  assumes "\<And>a. set (f a) \<subseteq> set us"
  shows "reach f x = {(a, b). b \<in> set (f a)}\<^sup>* `` {x}"
proof (rule reach_closure)
  have "{(a, b). b \<in> set (f a)}\<^sup>* `` {x} \<subseteq> insert x (set us)"
    by (rule closure_within) (rule assms)
  then show "finite ({(a, b). b \<in> set (f a)}\<^sup>* `` {x})"
    by (rule finite_subset) simp
qed

lemma in_neighbours8:
  "q \<in> set (neighbours8 p) \<longleftrightarrow> adjacent (fst p) (snd p) (fst q) (snd q)"
proof -
  have "q \<in> set (neighbours8 p) \<longleftrightarrow>
      (fst q \<in> set [fst p - 1 ..< fst p + 2] \<and> snd q \<in> set [snd p - 1 ..< snd p + 2]) \<and> q \<noteq> p"
    unfolding neighbours8_def set_filter
    by (cases q) (simp del: upt_Suc add_2_eq_Suc' add_2_eq_Suc atLeastLessThanSuc set_upt)
  then show ?thesis
    unfolding adjacent_def near_range by (cases p; cases q) simp
qed

lemma in_members: "p \<in> set (members m) \<longleftrightarrow> member m (fst p) (snd p)"
proof (cases p)
  case (Pair i j)
  have "(i, j) \<in> set (concat (map (\<lambda>i. map (Pair i) [0 ..< length (m ! i)]) [0 ..< length m]))
          \<longleftrightarrow> i < length m \<and> j < length (m ! i)"
    by (auto intro!: bexI[of _ i])
  then show ?thesis
    unfolding members_def member_def set_filter Pair by auto
qed

lemma in_member_neighbours:
  "q \<in> set (member_neighbours m p) \<longleftrightarrow>
     adjacent (fst p) (snd p) (fst q) (snd q) \<and> member m (fst q) (snd q)"
  by (auto simp: member_neighbours_def in_neighbours8)

lemma component_closure:
  "component m p = {(a, b). b \<in> set (member_neighbours m a)}\<^sup>* `` {p}"
  unfolding component_def
  by (rule reach_finite_range[of _ "members m"]) (auto simp: in_member_neighbours in_members)

lemma member_neighbours_sym:
  assumes "q \<in> set (member_neighbours m p)" and "member m (fst p) (snd p)"
  shows "p \<in> set (member_neighbours m q)"
  using assms adjacent_sym[of "fst p" "snd p" "fst q" "snd q"]
  by (simp add: in_member_neighbours)

lemma component_self: "p \<in> component m p"
  by (simp add: component_closure)

lemma component_step:
  assumes "a \<in> component m p" and "q \<in> set (member_neighbours m a)"
  shows "q \<in> component m p"
proof -
  from assms(1) have "(p, a) \<in> {(a, b). b \<in> set (member_neighbours m a)}\<^sup>*"
    by (simp add: component_closure)
  moreover from assms(2) have "(a, q) \<in> {(a, b). b \<in> set (member_neighbours m a)}"
    by simp
  ultimately have "(p, q) \<in> {(a, b). b \<in> set (member_neighbours m a)}\<^sup>*"
    by (rule rtrancl_into_rtrancl)
  then show ?thesis by (simp add: component_closure)
qed

lemma component_within:
  assumes "p \<in> S" and "\<And>a q. a \<in> S \<Longrightarrow> q \<in> set (member_neighbours m a) \<Longrightarrow> q \<in> S"
    and "x \<in> component m p"
  shows "x \<in> S"
proof -
  from assms(3) have "(p, x) \<in> {(a, b). b \<in> set (member_neighbours m a)}\<^sup>*"
    by (simp add: component_closure)
  then show ?thesis
  proof (induction rule: rtrancl_induct)
    case base
    show ?case by (rule assms(1))
  next
    case (step y z)
    then show ?case using assms(2)[of y z] by simp
  qed
qed

lemma regions_from_closed:
  assumes "\<And>p. p \<in> set ps \<Longrightarrow> member m (fst p) (snd p)"
    and "\<And>p q. p \<in> set ps \<Longrightarrow> q \<in> set (member_neighbours m p) \<Longrightarrow> q \<in> set ps"
    and "A \<in> set (regions_from m ps)"
  shows "A \<noteq> [] \<and> (\<forall>p \<in> set A. \<forall>q \<in> set (member_neighbours m p). q \<in> set A)"
  using assms
proof (induction m ps rule: regions_from.induct)
  case (1 m)
  then show ?case by simp
next
  case (2 m p ps)
  let ?C = "component m p"
  let ?A = "filter (\<lambda>q. q \<in> ?C) (p # ps)"
  let ?rest = "filter (\<lambda>q. q \<notin> ?C) ps"
  have sub: "x \<in> set (p # ps)" if "x \<in> ?C" for x
    by (rule component_within[of p "set (p # ps)" m x]) (use that "2.prems"(2) in auto)
  have setA: "set ?A = ?C"
    using sub by auto
  from "2.prems"(3) consider "A = ?A" | "A \<in> set (regions_from m ?rest)"
    by (auto simp: Let_def)
  then show ?case
  proof cases
    case 1
    have "p \<in> set ?A" using component_self[of p m] by simp
    then have "?A \<noteq> []" by auto
    moreover have "q \<in> set ?A" if "a \<in> set ?A" "q \<in> set (member_neighbours m a)" for a q
      using component_step[of a m p q] that unfolding setA by simp
    ultimately show ?thesis unfolding 1 by blast
  next
    case 2
    have mem: "member m (fst x) (snd x)" if "x \<in> set ?rest" for x
      using that "2.prems"(1)[of x] by simp
    have cl: "q \<in> set ?rest" if x: "x \<in> set ?rest" and q: "q \<in> set (member_neighbours m x)" for x q
    proof -
      from x have xs: "x \<in> set ps" and xC: "x \<notin> ?C" by simp_all
      from "2.prems"(2)[of x q] xs q have qs: "q \<in> set (p # ps)" by simp
      have qC: "q \<notin> ?C"
      proof
        assume "q \<in> ?C"
        moreover have "x \<in> set (member_neighbours m q)"
          by (rule member_neighbours_sym[OF q]) (use "2.prems"(1)[of x] xs in simp)
        ultimately have "x \<in> ?C" by (rule component_step)
        with xC show False by simp
      qed
      with component_self[of p m] have "q \<noteq> p" by auto
      with qs qC show ?thesis by simp
    qed
    show ?thesis
      by (rule "2.IH"[OF refl mem cl 2])
  qed
qed

lemma external_regions_closed:
  assumes "A \<in> set (external_regions m)"
  shows "A \<noteq> [] \<and> (\<forall>p \<in> set A. \<forall>q \<in> set (member_neighbours m p). q \<in> set A)"
proof -
  from assms have "A \<in> set (regions_from m (members m))"
    by (simp add: external_regions_def Let_def)
  then show ?thesis
    by (rule regions_from_closed[rotated 2]) (simp_all add: in_members in_member_neighbours)
qed

lemma cells_of_points_of: "cells_of (points_of A) = A"
  by (simp add: cells_of_def points_of_def comp_def)

lemma in_box_cells: "c \<in> set (box_cells B) \<longleftrightarrow> in_box B c"
  by (cases c) (auto simp: box_cells_def in_box_def)

lemma open_cells_closure:
  "open_cells B = {(a, b). b \<in> set (succ_open B a)}\<^sup>* `` {None}"
  unfolding open_cells_def
proof (rule reach_finite_range[of _ "map Some (box_cells B)"])
  fix a show "set (succ_open B a) \<subseteq> set (map Some (box_cells B))"
    by (cases a) (auto simp: in_box_cells)
qed

lemma open_cells_outside:
  assumes "Some c \<in> open_cells B"
  shows "c \<notin> set B \<and> in_box B c"
proof -
  from assms have "(None, Some c) \<in> {(a, b). b \<in> set (succ_open B a)}\<^sup>*"
    by (simp add: open_cells_closure)
  then show ?thesis
  proof (cases rule: rtranclE)
    case base
    then show ?thesis by simp
  next
    case (step y)
    then have "Some c \<in> set (succ_open B y)" by simp
    then show ?thesis by (cases y) (auto simp: in_box_cells)
  qed
qed

lemma open_cells_edge:
  assumes "in_box B c" and "on_edge B c" and "c \<notin> set B"
  shows "Some c \<in> open_cells B"
proof -
  have "(None, Some c) \<in> {(a, b). b \<in> set (succ_open B a)}"
    using assms by (simp add: in_box_cells)
  then show ?thesis
    unfolding open_cells_closure by blast
qed

lemma open_cells_step:
  assumes "Some d \<in> open_cells B" and "c \<in> set (neighbours4 d)" and "in_box B c" and "c \<notin> set B"
  shows "Some c \<in> open_cells B"
proof -
  from assms(1) have "(None, Some d) \<in> {(a, b). b \<in> set (succ_open B a)}\<^sup>*"
    by (simp add: open_cells_closure)
  moreover have "(Some d, Some c) \<in> {(a, b). b \<in> set (succ_open B a)}"
    using assms(2-4) by simp
  ultimately have "(None, Some c) \<in> {(a, b). b \<in> set (succ_open B a)}\<^sup>*"
    by (rule rtrancl_into_rtrancl)
  then show ?thesis by (simp add: open_cells_closure)
qed

lemma in_box_member:
  assumes "p \<in> set B"
  shows "in_box B p"
proof -
  from assms have "B \<noteq> []" by auto
  moreover have "fst p \<in> set (map fst B)" "snd p \<in> set (map snd B)"
    using assms by simp_all
  ultimately show ?thesis
    unfolding in_box_def by (simp add: Min_le Max_ge del: set_map)
qed

lemma enclosed_member: "p \<in> set B \<Longrightarrow> enclosed B p"
  using open_cells_outside[of p B] in_box_member[of p B] by (auto simp: enclosed_def)

lemma in_box_interior:
  assumes "in_box B p" and "\<not> on_edge B p" and "near (fst p) (snd p) (fst q) (snd q)"
  shows "in_box B q"
  using assms unfolding in_box_def on_edge_def near_def by auto

lemma in_neighbours4:
  "q \<in> set (neighbours4 p) \<longleftrightarrow>
     adjacent (fst p) (snd p) (fst q) (snd q) \<and> (fst q = fst p \<or> snd q = snd p)"
  by (simp add: neighbours4_def in_neighbours8)

lemma enclosed_not_edge:
  assumes "enclosed B p" and "p \<notin> set B"
  shows "\<not> on_edge B p"
  using assms open_cells_edge[of B p] by (auto simp: enclosed_def)

text \<open>A cell enclosed by a region and outside it has its four neighbours enclosed.\<close>

lemma enclosed_neighbour4:
  assumes enc: "enclosed B p" and out: "p \<notin> set B"
    and q: "q \<in> set (neighbours4 p)"
  shows "enclosed B q"
proof -
  from q have adj: "adjacent (fst p) (snd p) (fst q) (snd q)"
    and line: "fst q = fst p \<or> snd q = snd p"
    by (simp_all add: in_neighbours4)
  have box: "in_box B q"
    by (rule in_box_interior[OF _ enclosed_not_edge[OF enc out]])
       (use enc adj in \<open>simp_all add: enclosed_def adjacent_def\<close>)
  have "Some q \<notin> open_cells B"
  proof
    assume o: "Some q \<in> open_cells B"
    have "p \<in> set (neighbours4 q)"
      using adjacent_sym[OF adj] line by (auto simp: in_neighbours4)
    from open_cells_step[OF o this] enc out show False
      by (simp add: enclosed_def)
  qed
  with box show ?thesis by (simp add: enclosed_def)
qed

lemma enclosed_spreads:
  assumes closed: "\<And>a q. a \<in> set B \<Longrightarrow> q \<in> set (member_neighbours m a) \<Longrightarrow> q \<in> set B"
    and enc: "enclosed B p" and mp: "member m (fst p) (snd p)"
    and mq: "member m (fst q) (snd q)"
    and adj: "adjacent (fst p) (snd p) (fst q) (snd q)"
  shows "enclosed B q"
proof (cases "p \<in> set B")
  case True
  have "q \<in> set (member_neighbours m p)"
    using adj mq by (simp add: in_member_neighbours)
  from closed[OF True this] show ?thesis by (rule enclosed_member)
next
  case False
  show ?thesis
  proof (cases "fst q = fst p \<or> snd q = snd p")
    case True
    with adj have "q \<in> set (neighbours4 p)" by (simp add: in_neighbours4)
    from enclosed_neighbour4[OF enc False this] show ?thesis .
  next
    case diag: False
    define s where "s = (fst p, snd q)"
    have sp: "s \<in> set (neighbours4 p)"
      using adj diag by (auto simp: in_neighbours4 s_def adjacent_def near_def prod_eq_iff)
    have es: "enclosed B s" by (rule enclosed_neighbour4[OF enc False sp])
    have sB: "s \<notin> set B"
    proof
      assume "s \<in> set B"
      moreover have "p \<in> set (member_neighbours m s)"
        using sp mp adjacent_sym[of "fst p" "snd p" "fst s" "snd s"]
        by (simp add: in_member_neighbours in_neighbours4)
      ultimately have "p \<in> set B" by (rule closed)
      with False show False by simp
    qed
    have qs: "q \<in> set (neighbours4 s)"
      using adj diag by (auto simp: in_neighbours4 s_def adjacent_def near_def prod_eq_iff)
    show ?thesis by (rule enclosed_neighbour4[OF es sB qs])
  qed
qed

lemma cv_contours_fields:
  "findContours (cv_contours L) = findContours_cv"
  "contourArea (cv_contours L) = contourArea_cv"
  "covers (cv_contours L) = covers_cv"
  by (simp_all add: cv_contours_def)

lemma cv_fill_respects_regions: "fill_respects_regions (cv_contours L) m"
  unfolding fill_respects_regions_def cv_contours_fields
proof (intro ballI impI)
  fix c i j a b
  assume c: "c \<in> set (findContours_cv m)"
    and h: "member m i j \<and> member m a b \<and> adjacent i j a b \<and> covers_cv c i j"
  from c obtain B where B: "B \<in> set (external_regions m)" and cB: "c = points_of B"
    by (auto simp: findContours_cv_def)
  from external_regions_closed[OF B]
  have closed: "\<And>x q. x \<in> set B \<Longrightarrow> q \<in> set (member_neighbours m x) \<Longrightarrow> q \<in> set B"
    by blast
  have "enclosed B (a, b)"
    by (rule enclosed_spreads[of B m "(i, j)" "(a, b)", OF closed])
       (use h in \<open>simp_all add: covers_cv_def cB cells_of_points_of\<close>)
  then show "covers_cv c a b"
    by (simp add: covers_cv_def cB cells_of_points_of)
qed

lemma no_cell_no_member:
  assumes "same_size r m" and "length (concat m) = 0"
  shows "\<not> member r i j"
proof
  assume "member r i j"
  then have i: "i < length r" and j: "j < length (r ! i)" by (simp_all add: member_def)
  then have "r ! i \<in> set r" "r ! i \<noteq> []" by auto
  then have "concat r \<noteq> []" by auto
  with concat_same_size[OF assms(1)] assms(2) show False by simp
qed

lemma one_cell_mask:
  assumes rect: "rectangular m" and one: "length (concat m) = 1"
  shows "\<exists>v. m = [[v]]"
proof -
  have "map length m = replicate (length m) (length (hd m))"
    using rect by (intro nth_equalityI) (simp_all add: rectangular_def)
  then have "length (concat m) = length m * length (hd m)"
    by (simp add: length_concat sum_list_replicate)
  with one have l: "length m = 1" and w: "length (hd m) = 1" by simp_all
  from l obtain r where m: "m = [r]" by (cases m) auto
  with w obtain v where "r = [v]" by (cases r) auto
  with m show ?thesis by simp
qed

lemma u8_min_255: "min (v :: u8) 255 = v"
proof -
  have "(255 :: u8) = - 1" by simp
  then have "v \<le> 255" by (simp only: word_order.extremum)
  then show ?thesis by (simp add: min_def)
qed

lemma u8_max_0: "max (v :: u8) 0 = v"
  by (simp add: max_def)

lemma window_one_cell: "window [[v]] 0 0 = [v]"
  by (simp add: window_def)

lemma erode1_one_cell: "erode1 [[v]] = [[v]]"
  by (simp add: erode1_def window_one_cell u8_min_255)

lemma dilate1_one_cell: "dilate1 [[v]] = [[v]]"
  by (simp add: dilate1_def window_one_cell u8_max_0)

lemma morph_one_cell: "dilate (morphologyEx_OPEN [[v]] 2) 1 = [[v]]"
  unfolding morph_unfold by (simp add: erode1_one_cell dilate1_one_cell)

lemma member_one_cell: "member [[v]] i j \<longleftrightarrow> i = 0 \<and> j = 0 \<and> v \<noteq> 0"
  by (auto simp: member_def)

lemma external_regions_one_cell:
  assumes "v \<noteq> 0"
  shows "external_regions [[v]] = [[(0, 0)]]"
proof -
  have m: "members [[v]] = [(0, 0)]"
    using assms by (simp add: members_def)
  have "regions_from [[v]] [(0, 0)] = [[(0, 0)]]"
    using component_self[of "(0, 0)" "[[v]]"] by (simp add: Let_def)
  with m show ?thesis
    by (simp add: external_regions_def)
qed

lemma box_cells_origin: "box_cells [(0, 0)] = [(0, 0)]"
  by (simp add: box_cells_def)

lemma enclosed_area_origin: "enclosed_area [(0, 0)] = 0"
proof -
  have "enclosed [(0, 0)] (0, 0)" by (rule enclosed_member) simp
  then have "Some (0, 0) \<notin> open_cells [(0, 0)]" by (simp add: enclosed_def)
  then show ?thesis
    by (simp add: enclosed_area_def box_cells_origin)
qed

lemma refine_mask_one_cell: "\<not> member (refine_mask (cv_contours L) [[v]]) i j"
proof
  assume "member (refine_mask (cv_contours L) [[v]]) i j"
  then have mem: "member [[v]] i j"
    and keep: "\<And>c. c \<in> set (findContours_cv [[v]]) \<Longrightarrow> contourArea_cv c < 500 \<Longrightarrow> \<not> covers_cv c i j"
    unfolding member_refine_mask morph_one_cell cv_contours_fields by blast+
  from mem have ij: "i = 0" "j = 0" and v: "v \<noteq> 0" by (simp_all add: member_one_cell)
  have "points_of [(0, 0)] \<in> set (findContours_cv [[v]])"
    by (simp add: findContours_cv_def external_regions_one_cell[OF v])
  moreover have "contourArea_cv (points_of [(0, 0)]) < 500"
    by (simp add: contourArea_cv_def cells_of_points_of enclosed_area_origin)
  moreover have "covers_cv (points_of [(0, 0)]) i j"
    unfolding covers_cv_def cells_of_points_of ij by (rule enclosed_member) simp
  ultimately show False using keep by blast
qed

lemma cv_refine_no_isolated:
  assumes rect: "rectangular m"
  shows "\<not> isolated (refine_mask (cv_contours L) m) i j"
proof -
  consider "length (concat m) = 0" | "length (concat m) = 1" | "1 < length (concat m)"
    by linarith
  then show ?thesis
  proof cases
    case 1
    from no_cell_no_member[OF same_size_refine_mask 1] show ?thesis
      by (simp add: isolated_iff)
  next
    case 2
    from one_cell_mask[OF rect 2] obtain v where "m = [[v]]" by blast
    then show ?thesis
      using refine_mask_one_cell[of L v i j] by (simp add: isolated_iff)
  next
    case 3
    show ?thesis
      by (rule refine_mask_no_isolated[OF rect 3 cv_fill_respects_regions])
  qed
qed

lemma cv_refine_single:
  assumes rect: "rectangular m" and one: "at_most_one_member m"
  shows "refine_mask (cv_contours L) m = map (map (\<lambda>v. 0)) m"
proof -
  consider "length (concat m) = 0" | "length (concat m) = 1" | "1 < length (concat m)"
    by linarith
  then show ?thesis
  proof cases
    case 1
    show ?thesis
      by (rule zero_mask[OF same_size_refine_mask]) (rule no_cell_no_member[OF same_size_refine_mask 1])
  next
    case 2
    from one_cell_mask[OF rect 2] obtain v where m: "m = [[v]]" by blast
    show ?thesis
      by (rule zero_mask[OF same_size_refine_mask]) (simp add: m refine_mask_one_cell)
  next
    case 3
    show ?thesis by (rule refine_mask_single[OF rect 3 one])
  qed
qed

text \<open>
  Claim C5. With the contour routines of the model above, for every
  rectangular mask, of any size: the mask \<^verbatim>\<open>refine_mask\<close> returns has no isolated
  member; and a mask with at most one member, so one whose only member is an
  isolated cell, is refined to the all-zero mask of its size.
\<close>

theorem refine_leaves_no_isolated_member:
  assumes "rectangular m"
  shows "(\<forall>i j. \<not> isolated (refine_mask (cv_contours L) m) i j) \<and>
         (at_most_one_member m \<longrightarrow> refine_mask (cv_contours L) m = map (map (\<lambda>v. 0)) m)"
  using cv_refine_no_isolated[OF assms] cv_refine_single[OF assms] by blast

lemma single_pixel_mask: "at_most_one_member [[0, 0, 0], [0, 255, 0], [0, 0, 0]]"
  by code_simp

lemma one_pixel_mask: "at_most_one_member [[255]]"
  by code_simp

theorem refine_leaves_no_isolated_member_witness:
  "rectangular [[0, 0, 0], [0, 255, 0], [0, 0, 0 :: u8]] \<and>
   isolated [[0, 0, 0], [0, 255, 0], [0, 0, 0]] 1 1 \<and>
   at_most_one_member [[0, 0, 0], [0, 255, 0], [0, 0, 0]] \<and>
   refine_mask (cv_contours plain_cv) [[0, 0, 0], [0, 255, 0], [0, 0, 0]]
     = [[0, 0, 0], [0, 0, 0], [0, 0, 0]] \<and>
   rectangular [[255 :: u8]] \<and> isolated [[255]] 0 0 \<and>
   refine_mask (cv_contours plain_cv) [[255]] = [[0]] \<and>
   rectangular [[255, 255], [255, 255 :: u8]] \<and>
   \<not> isolated (refine_mask (cv_contours plain_cv) [[255, 255], [255, 255]]) 0 0"
proof -
  let ?M = "[[0, 0, 0], [0, 255, 0], [0, 0, 0 :: u8]]"
  let ?N = "[[255, 255], [255, 255 :: u8]]"
  have r: "rectangular ?M" "rectangular [[255 :: u8]]" "rectangular ?N"
    by (simp_all add: rectangular_def)
  have i: "isolated ?M 1 1" "isolated [[255]] 0 0" by code_simp+
  from refine_leaves_no_isolated_member[OF r(1), of plain_cv] single_pixel_mask
  have 1: "refine_mask (cv_contours plain_cv) ?M = [[0, 0, 0], [0, 0, 0], [0, 0, 0]]" by simp
  from refine_leaves_no_isolated_member[OF r(2), of plain_cv] one_pixel_mask
  have 2: "refine_mask (cv_contours plain_cv) [[255]] = [[0]]" by simp
  from refine_leaves_no_isolated_member[OF r(3), of plain_cv]
  have 3: "\<not> isolated (refine_mask (cv_contours plain_cv) ?N) 0 0" by blast
  from r i single_pixel_mask 1 2 3 show ?thesis by (intro conjI)
qed


section \<open>Background capture and recording\<close>

lemma countdown_step_fields:
  "background (countdown_step L cam i s) = background s"
  "cap_pos (countdown_step L cam i s) = cap_pos s + 1"
  by (simp_all add: countdown_step_def Let_def imshow_def split: option.splits)

lemma countdown_loop_fields:
  "background (fold (countdown_step L cam) xs s) = background s \<and>
   cap_pos (fold (countdown_step L cam) xs s) = cap_pos s + length xs"
  by (induction xs arbitrary: s) (simp_all add: countdown_step_fields)

lemma capture_step_background:
  "background (snd (capture_step L cam n i (fs, s))) = background s"
  by (simp add: capture_step_def Let_def imshow_def split: option.splits)

lemma capture_step_miss:
  "cam (cap_pos s) = None \<Longrightarrow>
     capture_step L cam n i (fs, s) = (fs, s\<lparr>cap_pos := cap_pos s + 1\<rparr>)"
  by (simp add: capture_step_def)

lemma capture_loop_background:
  "background (snd (fold (capture_step L cam n) xs (fs, s))) = background s"
proof (induction xs arbitrary: fs s)
  case Nil
  show ?case by simp
next
  case (Cons x xs)
  obtain fs' s' where st: "capture_step L cam n x (fs, s) = (fs', s')"
    by (cases "capture_step L cam n x (fs, s)")
  with capture_step_background[of L cam n x fs s] have "background s' = background s" by simp
  with Cons.IH[of fs' s'] st show ?case by simp
qed

lemma capture_loop_miss:
  "(\<forall>k < length xs. cam (cap_pos s + k) = None) \<Longrightarrow>
     fst (fold (capture_step L cam n) xs (fs, s)) = fs"
proof (induction xs arbitrary: s)
  case Nil
  show ?case by simp
next
  case (Cons x xs)
  from Cons.prems have 0: "cam (cap_pos s) = None" by auto
  have "\<forall>k < length xs. cam (cap_pos (s\<lparr>cap_pos := cap_pos s + 1\<rparr>) + k) = None"
    using Cons.prems by auto
  from Cons.IH[OF this] show ?case
    using capture_step_miss[of cam s L n x fs, OF 0] by simp
qed

text \<open>
  Claim C3. When none of the reads of the capture phase returns a frame (the
  reads number \<open>cap_pos s + 60\<close> onwards, after the 60 of the countdown),
  \<^verbatim>\<open>capture_background\<close> returns False, prints the failure and leaves
  \<^verbatim>\<open>self.background\<close> as it was, a plate held before included.
\<close>

theorem failed_capture_keeps_plate:
  assumes "\<forall>k < nat num_frames. cam (cap_pos s + 60 + k) = None"
  shows "fst (capture_background L cam num_frames s) = False \<and>
         background (snd (capture_background L cam num_frames s)) = background s \<and>
         last (events (snd (capture_background L cam num_frames s)))
           = Printed Failed_to_capture_background"
proof -
  let ?s0 = "console This_will_take_about_3_seconds (console Capturing_background s)"
  let ?s1 = "fold (countdown_step L cam) [0 ..< 60] ?s0"
  have p: "cap_pos ?s1 = cap_pos s + 60" and b: "background ?s1 = background s"
    using countdown_loop_fields[of L cam "[0 ..< 60]" ?s0]
    by (simp_all add: console_def)
  obtain frames s2 where st:
    "fold (capture_step L cam num_frames) [0 ..< nat num_frames] ([], ?s1) = (frames, s2)"
    by (cases "fold (capture_step L cam num_frames) [0 ..< nat num_frames] ([], ?s1)")
  have "\<forall>k < length [0 ..< nat num_frames]. cam (cap_pos ?s1 + k) = None"
    using assms p by simp
  from capture_loop_miss[OF this, of L num_frames "[]"] st have f: "frames = []" by simp
  from capture_loop_background[of L cam num_frames "[0 ..< nat num_frames]" "[]" ?s1] st b
  have "background s2 = background s" by simp
  with st f show ?thesis
    by (simp add: capture_background_def Let_def console_def)
qed

theorem failed_capture_keeps_plate_witness:
  "(\<lambda>n. if n < 60 then Some [[(9, 9, 9)]] else None) (cap_pos (cloak_init\<lparr>background := Some [[(1, 2, 3)]]\<rparr>) + 60 + 29) = None \<and>
   fst (capture_background plain_cv (\<lambda>n. if n < 60 then Some [[(9, 9, 9)]] else None) 30
          (cloak_init\<lparr>background := Some [[(1, 2, 3)]]\<rparr>)) = False \<and>
   background (snd (capture_background plain_cv (\<lambda>n. if n < 60 then Some [[(9, 9, 9)]] else None) 30
          (cloak_init\<lparr>background := Some [[(1, 2, 3)]]\<rparr>))) = Some [[(1, 2, 3)]]"
  using failed_capture_keeps_plate[where num_frames = 30
      and cam = "\<lambda>n. if n < 60 then Some [[(9, 9, 9)]] else None"
      and s = "cloak_init\<lparr>background := Some [[(1, 2, 3)]]\<rparr>" and L = plain_cv]
  by simp

text \<open>
  For comparison, a capture that reads frames: with a camera that always
  delivers the same frame and two frames asked for, the call returns True
  after 62 reads and installs the mirrored frame as the plate.
\<close>

lemma capture_background_example:
  "fst (capture_background plain_cv (\<lambda>n. Some [[(9, 9, 9), (1, 2, 3)]]) 2 cloak_init) = True \<and>
   background (snd (capture_background plain_cv (\<lambda>n. Some [[(9, 9, 9), (1, 2, 3)]]) 2 cloak_init))
     = Some [[(1, 2, 3), (9, 9, 9)]] \<and>
   cap_pos (snd (capture_background plain_cv (\<lambda>n. Some [[(9, 9, 9), (1, 2, 3)]]) 2 cloak_init)) = 62"
  by code_simp

text \<open>
  Claim C7. When \<^verbatim>\<open>toggle_recording\<close> is called while not recording and the
  camera returns no frame, or the video writer made for the frame does not
  open, the failure is printed and \<^verbatim>\<open>is_recording\<close> is still false.
\<close>

theorem failed_start_not_recording:
  assumes "\<not> is_recording s"
    and "case cam (cap_pos s) of
           None \<Rightarrow> True
         | Some frame \<Rightarrow>
             \<not> isOpened \<lparr>w_filename = ''invisibility_cloak_'' @ timestamp @ ''.mp4'',
                          w_size = (frame_width frame, frame_height frame)\<rparr>"
  shows "\<not> is_recording (toggle_recording cam isOpened timestamp s) \<and>
         events (toggle_recording cam isOpened timestamp s)
           = events s @ [Printed (case cam (cap_pos s) of
                                    None \<Rightarrow> Cannot_start_recording_no_frame
                                  | Some frame \<Rightarrow> Failed_to_initialize_video_writer)]"
  using assms
  by (cases "cam (cap_pos s)") (simp_all add: toggle_recording_def Let_def console_def)

theorem failed_start_not_recording_witness:
  "\<not> is_recording cloak_init \<and>
   \<not> is_recording (toggle_recording (\<lambda>n. None) (\<lambda>w. True) ''20260101_000000'' cloak_init) \<and>
   events (toggle_recording (\<lambda>n. None) (\<lambda>w. True) ''20260101_000000'' cloak_init)
     = [Printed Cannot_start_recording_no_frame] \<and>
   \<not> is_recording (toggle_recording (\<lambda>n. Some [[(1, 2, 3)]]) (\<lambda>w. False) ''20260101_000000'' cloak_init) \<and>
   events (toggle_recording (\<lambda>n. Some [[(1, 2, 3)]]) (\<lambda>w. False) ''20260101_000000'' cloak_init)
     = [Printed Failed_to_initialize_video_writer]"
proof -
  have a: "\<not> is_recording cloak_init" by (simp add: cloak_init_def)
  from failed_start_not_recording[OF a, where cam = "\<lambda>n. None" and isOpened = "\<lambda>w. True"
           and timestamp = "''20260101_000000''"]
       failed_start_not_recording[OF a, where cam = "\<lambda>n. Some [[(1, 2, 3)]]" and isOpened = "\<lambda>w. False"
           and timestamp = "''20260101_000000''"]
  show ?thesis using a
    by (simp add: cloak_init_def)
qed

text \<open>
  Claim C10. Starting a recording reads one frame from the camera, and the
  frame serves only to give the writer its size. The state after the call is
  the state before it with the read counter advanced by one, the writer made
  for (width, height) of that frame installed and the flag set when it opens
  (no writer and the flag unset when it does not), and one printed line
  added: nothing is shown or written, and the plate is kept. The result
  depends on the frame only through its height and width: with any other
  frame of that shape at that read the resulting state is the same.
\<close>

theorem recording_start_discards_frame:
  assumes "\<not> is_recording s" and "cam (cap_pos s) = Some frame"
    and "w = \<lparr>w_filename = ''invisibility_cloak_'' @ timestamp @ ''.mp4'',
               w_size = (frame_width frame, frame_height frame)\<rparr>"
  shows "toggle_recording cam isOpened timestamp s
           = s\<lparr>video_writer := (if isOpened w then Some w else None),
                is_recording := isOpened w,
                cap_pos := cap_pos s + 1,
                events := events s @
                  [Printed (if isOpened w then Recording_started (w_filename w)
                            else Failed_to_initialize_video_writer)]\<rparr> \<and>
         (\<forall>cam' frame'. cam' (cap_pos s) = Some frame' \<and>
              frame_height frame' = frame_height frame \<and> frame_width frame' = frame_width frame
            \<longrightarrow> toggle_recording cam' isOpened timestamp s
                  = toggle_recording cam isOpened timestamp s)"
  using assms
  by (simp add: toggle_recording_def Let_def console_def)

theorem recording_start_discards_frame_witness:
  "\<not> is_recording cloak_init \<and>
   toggle_recording (\<lambda>n. Some [[(1, 2, 3), (4, 5, 6)]]) (\<lambda>w. True) ''20260101_000000'' cloak_init
     = cloak_init\<lparr>video_writer := Some \<lparr>w_filename = ''invisibility_cloak_20260101_000000.mp4'',
                                         w_size = (2, 1)\<rparr>,
                   is_recording := True, cap_pos := 1,
                   events := [Printed (Recording_started ''invisibility_cloak_20260101_000000.mp4'')]\<rparr> \<and>
   toggle_recording (\<lambda>n. Some [[(7, 8, 9), (9, 9, 9)]]) (\<lambda>w. True) ''20260101_000000'' cloak_init
     = toggle_recording (\<lambda>n. Some [[(1, 2, 3), (4, 5, 6)]]) (\<lambda>w. True) ''20260101_000000'' cloak_init"
proof -
  let ?w = "\<lparr>w_filename = ''invisibility_cloak_'' @ ''20260101_000000'' @ ''.mp4'',
             w_size = (frame_width [[(1, 2, 3), (4, 5, 6 :: u8)]], frame_height [[(1, 2, 3), (4, 5, 6 :: u8)]])\<rparr>"
  have a: "\<not> is_recording cloak_init" by (simp add: cloak_init_def)
  have b: "(\<lambda>n. Some [[(1, 2, 3), (4, 5, 6)]]) (cap_pos cloak_init) = Some [[(1, 2, 3), (4, 5, 6 :: u8)]]"
    by simp
  note t = recording_start_discards_frame[OF a b refl[of ?w], where isOpened = "\<lambda>w. True"]
  from t[THEN conjunct1]
  have c: "toggle_recording (\<lambda>n. Some [[(1, 2, 3), (4, 5, 6)]]) (\<lambda>w. True) ''20260101_000000'' cloak_init
     = cloak_init\<lparr>video_writer := Some \<lparr>w_filename = ''invisibility_cloak_20260101_000000.mp4'',
                                         w_size = (2, 1)\<rparr>,
                   is_recording := True, cap_pos := 1,
                   events := [Printed (Recording_started ''invisibility_cloak_20260101_000000.mp4'')]\<rparr>"
    by (simp add: cloak_init_def frame_width_def frame_height_def)
  have "(\<lambda>n. Some [[(7, 8, 9), (9, 9, 9)]]) (cap_pos cloak_init) = Some [[(7, 8, 9), (9, 9, 9 :: u8)]] \<and>
        frame_height [[(7, 8, 9), (9, 9, 9 :: u8)]] = frame_height [[(1, 2, 3), (4, 5, 6 :: u8)]] \<and>
        frame_width [[(7, 8, 9), (9, 9, 9 :: u8)]] = frame_width [[(1, 2, 3), (4, 5, 6 :: u8)]]"
    by (simp add: frame_height_def frame_width_def)
  then have d: "toggle_recording (\<lambda>n. Some [[(7, 8, 9), (9, 9, 9)]]) (\<lambda>w. True) ''20260101_000000'' cloak_init
     = toggle_recording (\<lambda>n. Some [[(1, 2, 3), (4, 5, 6)]]) (\<lambda>w. True) ''20260101_000000'' cloak_init"
    by (rule t[THEN conjunct2, rule_format])
  show ?thesis by (intro conjI a c d)
qed

end
